theory Spec2Isabelle
  imports Complex_Main "HOL-Library.Word" "HOL-Library.AList"
begin

unbundle bit_operations_syntax

section \<open>JavaScript values\<close>

text \<open>
  The poller is a Node.js script, so its data are JavaScript values. A number is an IEEE
  double: the model keeps what the script looks at, namely whether it is finite (an exact
  rational), one of the infinities, or NaN. A string is kept as the list of its UTF-8 bytes.
  An object is the list of its own properties in insertion order.
\<close>

datatype number = Finite rat | PosInfinity | NegInfinity | NaN

datatype jsval =
    JUndefined
  | JNull
  | JBool bool
  | JNum number
  | JStr string
  | JArr "jsval list"
  | JObj "(string \<times> jsval) list"

datatype js_error =
    TypeError
  | SyntaxError
  | RangeError
  | FsError string
  | OtherError string

type_synonym byte = "8 word"

text \<open>Sequencing of computations that may throw: \<open>Inl\<close> is the thrown error.\<close>

definition js_bind :: "js_error + 'a \<Rightarrow> ('a \<Rightarrow> js_error + 'b) \<Rightarrow> js_error + 'b" where
  "js_bind m f = (case m of Inl e \<Rightarrow> Inl e | Inr x \<Rightarrow> f x)"

text \<open>
  Reading a property \<open>v.k\<close>. The read throws a TypeError on \<open>null\<close> and \<open>undefined\<close>.
  On an object it gives the own property or \<open>undefined\<close>; on the other values it gives
  \<open>undefined\<close> for every key this program reads (\<open>id\<close>, \<open>enabled\<close>, \<open>url\<close>, \<open>ip\<close>,
  \<open>host\<close>, \<open>port\<close>, \<open>timeoutMs\<close>, \<open>online\<close>, \<open>players\<close>, \<open>version\<close>, \<open>max\<close>,
  \<open>name\<close>), none of which is defined on a built-in prototype.
\<close>

fun read_prop :: "jsval \<Rightarrow> string \<Rightarrow> jsval" where
  "read_prop (JObj fs) k = (case map_of fs k of None \<Rightarrow> JUndefined | Some v \<Rightarrow> v)"
| "read_prop v k = JUndefined"

definition nullish :: "jsval \<Rightarrow> bool" where
  "nullish v = (v = JUndefined \<or> v = JNull)"

definition get_prop :: "jsval \<Rightarrow> string \<Rightarrow> js_error + jsval" where
  "get_prop v k = (if nullish v then Inl TypeError else Inr (read_prop v k))"

text \<open>Optional chaining \<open>v?.k\<close>.\<close>

definition opt_prop :: "jsval \<Rightarrow> string \<Rightarrow> jsval" where
  "opt_prop v k = (if nullish v then JUndefined else read_prop v k)"

fun truthy :: "jsval \<Rightarrow> bool" where
  "truthy JUndefined = False"
| "truthy JNull = False"
| "truthy (JBool b) = b"
| "truthy (JNum (Finite r)) = (r \<noteq> 0)"
| "truthy (JNum NaN) = False"
| "truthy (JNum n) = True"
| "truthy (JStr s) = (s \<noteq> [])"
| "truthy (JArr xs) = True"
| "truthy (JObj fs) = True"


text \<open>\<open>Number.isFinite(v)\<close>: true only for a number that is neither infinite nor NaN.\<close>

fun Number_isFinite :: "jsval \<Rightarrow> bool" where
  "Number_isFinite (JNum (Finite r)) = True"
| "Number_isFinite v = False"

text \<open>\<open>n > 0\<close> on a number.\<close>

fun number_gt0 :: "number \<Rightarrow> bool" where
  "number_gt0 (Finite r) = (0 < r)"
| "number_gt0 PosInfinity = True"
| "number_gt0 n = False"

text \<open>
  The conversion of an object to a primitive value (\<open>OrdinaryToPrimitive\<close>) calls its
  \<open>valueOf\<close> and \<open>toString\<close> methods and throws a TypeError when neither gives a primitive.
  The values of this program come from \<open>JSON.parse\<close>: the prototype of an object is
  \<open>Object.prototype\<close>, whose \<open>valueOf\<close> returns the object itself and whose \<open>toString\<close>
  returns \<open>"[object Object]"\<close>, and an own property is never a function. So the conversion of
  an object throws exactly when the object has an own property \<open>toString\<close>, which hides the
  inherited method. The \<open>toString\<close> of an array joins its elements, converting each element
  other than null and undefined to a string, and throws when one of these conversions does.
\<close>

fun ToPrimitive_throws :: "jsval \<Rightarrow> bool" where
  "ToPrimitive_throws (JObj fs) = (''toString'' \<in> set (map fst fs))"
| "ToPrimitive_throws (JArr xs) = (\<exists>x \<in> set xs. ToPrimitive_throws x)"
| "ToPrimitive_throws v = False"

text \<open>
  \<open>Number(v)\<close>. The conversion of undefined, null, booleans and numbers is fixed by the
  language. An object or array is first converted to a primitive, which may throw; an object
  that converts gives \<open>"[object Object]"\<close>, which reads as NaN. The numeric reading of a
  string, and of the string an array converts to, is the runtime's string-to-number conversion
  and is a parameter \<open>conv\<close>.
\<close>

fun Number_js :: "(jsval \<Rightarrow> number) \<Rightarrow> jsval \<Rightarrow> js_error + number" where
  "Number_js conv JUndefined = Inr NaN"
| "Number_js conv JNull = Inr (Finite 0)"
| "Number_js conv (JBool b) = Inr (Finite (if b then 1 else 0))"
| "Number_js conv (JNum n) = Inr n"
| "Number_js conv (JStr s) = Inr (conv (JStr s))"
| "Number_js conv (JArr xs) =
     (if ToPrimitive_throws (JArr xs) then Inl TypeError else Inr (conv (JArr xs)))"
| "Number_js conv (JObj fs) =
     (if ToPrimitive_throws (JObj fs) then Inl TypeError else Inr NaN)"

text \<open>
  \<open>toLowerCase\<close> on the ASCII letters. A character outside ASCII never lowercases to one of
  the letters of \<open>false\<close>, so the comparison made by \<open>isEnabled\<close> is the one of the script.
\<close>

definition toLowerCase_char :: "char \<Rightarrow> char" where
  "toLowerCase_char c =
     (let n = (of_char c :: nat) in if 65 \<le> n \<and> n \<le> 90 then char_of (n + 32) else c)"

definition toLowerCase :: "string \<Rightarrow> string" where
  "toLowerCase s = map toLowerCase_char s"

definition startsWith :: "string \<Rightarrow> string \<Rightarrow> bool" where
  "startsWith s p = (take (length p) s = p)"

text \<open>
  \<open>String.prototype.trim\<close> strips white space and line terminators: the UTF-8 encodings of
  U+0009 to U+000D, U+0020, U+00A0, U+1680, U+2000 to U+200A, U+2028, U+2029, U+202F, U+205F,
  U+3000 and U+FEFF.
\<close>

definition whitespace :: "string list" where
  "whitespace =
     [[CHR 0x09], [CHR 0x0A], [CHR 0x0B], [CHR 0x0C], [CHR 0x0D], [CHR 0x20],
      [CHR 0xC2, CHR 0xA0], [CHR 0xE1, CHR 0x9A, CHR 0x80],
      [CHR 0xE2, CHR 0x80, CHR 0x80], [CHR 0xE2, CHR 0x80, CHR 0x81],
      [CHR 0xE2, CHR 0x80, CHR 0x82], [CHR 0xE2, CHR 0x80, CHR 0x83],
      [CHR 0xE2, CHR 0x80, CHR 0x84], [CHR 0xE2, CHR 0x80, CHR 0x85],
      [CHR 0xE2, CHR 0x80, CHR 0x86], [CHR 0xE2, CHR 0x80, CHR 0x87],
      [CHR 0xE2, CHR 0x80, CHR 0x88], [CHR 0xE2, CHR 0x80, CHR 0x89],
      [CHR 0xE2, CHR 0x80, CHR 0x8A], [CHR 0xE2, CHR 0x80, CHR 0xA8],
      [CHR 0xE2, CHR 0x80, CHR 0xA9], [CHR 0xE2, CHR 0x80, CHR 0xAF],
      [CHR 0xE2, CHR 0x81, CHR 0x9F], [CHR 0xE3, CHR 0x80, CHR 0x80],
      [CHR 0xEF, CHR 0xBB, CHR 0xBF]]"

definition leading_whitespace :: "string \<Rightarrow> nat" where
  "leading_whitespace s =
     (case filter (\<lambda>w. take (length w) s = w) whitespace of [] \<Rightarrow> 0 | w # ws \<Rightarrow> length w)"

definition trailing_whitespace :: "string \<Rightarrow> nat" where
  "trailing_whitespace s =
     (case filter (\<lambda>w. length w \<le> length s \<and> drop (length s - length w) s = w) whitespace of
        [] \<Rightarrow> 0 | w # ws \<Rightarrow> length w)"

function trimStart :: "string \<Rightarrow> string" where
  "trimStart s =
     (if leading_whitespace s = 0 \<or> length s < leading_whitespace s then s
      else trimStart (drop (leading_whitespace s) s))"
  by pat_completeness auto
termination
  by (relation "measure length") auto

function trimEnd :: "string \<Rightarrow> string" where
  "trimEnd s =
     (if trailing_whitespace s = 0 \<or> length s < trailing_whitespace s then s
      else trimEnd (take (length s - trailing_whitespace s) s))"
  by pat_completeness auto
termination
  by (relation "measure length") auto

declare trimStart.simps [simp del] trimEnd.simps [simp del]

definition trim :: "string \<Rightarrow> string" where
  "trim s = trimEnd (trimStart s)"

section \<open>Utilities\<close>

text \<open>\<open>isEnabled\<close>: a target is enabled unless \<open>enabled\<close> is \<open>false\<close>, \<open>"false"\<close> in any
  letter case, or \<open>0\<close>. The read \<open>server?.enabled\<close> does not throw.\<close>

definition isEnabled :: "jsval \<Rightarrow> bool" where
  "isEnabled server =
     (let v = opt_prop server ''enabled'' in
      if v = JUndefined \<or> v = JNull then True
      else if v = JBool False then False
      else if (case v of JStr s \<Rightarrow> toLowerCase s = ''false'' | _ \<Rightarrow> False) then False
      else if v = JNum (Finite 0) then False
      else True)"

text \<open>
  \<open>pickHostPort\<close>: the host is \<open>ip\<close>, else \<open>host\<close>, else loopback when a port is given; the
  port is \<open>Number(port)\<close> when \<open>port\<close> is not undefined, and that conversion may throw. The
  three reads have no effect and throw alike (only when \<open>server\<close> is null or undefined), so
  the model makes them up front.
\<close>

definition pickHostPort :: "(jsval \<Rightarrow> number) \<Rightarrow> jsval \<Rightarrow> js_error + (jsval \<times> jsval)" where
  "pickHostPort conv server =
     js_bind (get_prop server ''ip'') (\<lambda>ip.
     js_bind (get_prop server ''host'') (\<lambda>h.
     js_bind (get_prop server ''port'') (\<lambda>p.
       let host = (if truthy ip then ip
                   else if truthy h then h
                   else if truthy p then JStr ''127.0.0.1'' else JUndefined)
       in js_bind (if p \<noteq> JUndefined then js_bind (Number_js conv p) (\<lambda>n. Inr (JNum n))
                   else Inr JUndefined) (\<lambda>port.
          Inr (host, port)))))"

text \<open>\<open>typeof url === 'string' && url.startsWith('http')\<close>\<close>

definition isHttpUrl :: "jsval \<Rightarrow> bool" where
  "isHttpUrl url = (case url of JStr s \<Rightarrow> startsWith s ''http'' | _ \<Rightarrow> False)"

text \<open>\<open>!!h && Number.isFinite(p) && p > 0\<close>\<close>

definition usableHostPort :: "jsval \<Rightarrow> jsval \<Rightarrow> bool" where
  "usableHostPort h p =
     (truthy h \<and> Number_isFinite p \<and> (case p of JNum n \<Rightarrow> number_gt0 n | _ \<Rightarrow> False))"

definition shouldSkipPoll :: "(jsval \<Rightarrow> number) \<Rightarrow> jsval \<Rightarrow> js_error + bool" where
  "shouldSkipPoll conv server =
     js_bind (get_prop server ''ip'') (\<lambda>ip.
     js_bind (get_prop server ''host'') (\<lambda>h.
       let host = (if truthy ip then ip else h) in
       if host = JStr ''0.0.0.0'' then Inr True
       else
         js_bind (get_prop server ''url'') (\<lambda>url.
         js_bind (pickHostPort conv server) (\<lambda>(h, p).
           let hasUrl = isHttpUrl url;
               hasHostPort = usableHostPort h p
           in Inr (\<not> (hasUrl \<or> hasHostPort))))))"

section \<open>The concurrency pool\<close>

text \<open>
  \<open>mapWithConcurrency\<close> starts \<open>min limit (length items)\<close> workers over a shared cursor
  \<open>i\<close>. JavaScript runs them on one thread and switches only at \<open>await\<close>, so a worker moves
  in two kinds of atomic steps: taking the next index (\<open>idx = i++\<close>, the bound check and the
  call of the mapper, up to the \<open>await\<close>), and resuming when the mapper's promise settles
  (the store into \<open>results[idx]\<close>, by the \<open>try\<close> or by the \<open>catch\<close>). Which suspended worker
  resumes next is decided by the order in which the checks complete: the schedule, a list
  of worker numbers, is that order. The mapper's outcome for an item is \<open>Inr\<close> its value or
  \<open>Inl\<close> the error it threw or rejected with. The limit is a count, a natural number.
\<close>

datatype 'b pool_entry = Hole | Result 'b | ErrorMarker js_error

datatype worker = Ready | Awaiting nat | Finished

record 'b pool_state =
  cursor_i :: nat
  results :: "'b pool_entry list"
  workers :: "worker list"

definition pool_start :: "'a list \<Rightarrow> nat \<Rightarrow> 'b pool_state" where
  "pool_start items limit =
     \<lparr>cursor_i = 0,
      results = replicate (length items) Hole,
      workers = replicate (min limit (length items)) Ready\<rparr>"

definition settle :: "js_error + 'b \<Rightarrow> 'b pool_entry" where
  "settle r = (case r of Inr v \<Rightarrow> Result v | Inl err \<Rightarrow> ErrorMarker err)"

definition worker_step ::
  "'a list \<Rightarrow> ('a \<Rightarrow> nat \<Rightarrow> js_error + 'b) \<Rightarrow> nat \<Rightarrow> 'b pool_state \<Rightarrow> 'b pool_state option" where
  "worker_step items mapper w s =
     (if length (workers s) \<le> w then None
      else case workers s ! w of
        Finished \<Rightarrow> None
      | Ready \<Rightarrow>
          let idx = cursor_i s in
          if length items \<le> idx
          then Some (s\<lparr>cursor_i := idx + 1, workers := (workers s)[w := Finished]\<rparr>)
          else Some (s\<lparr>cursor_i := idx + 1, workers := (workers s)[w := Awaiting idx]\<rparr>)
      | Awaiting idx \<Rightarrow>
          Some (s\<lparr>results := (results s)[idx := settle (mapper (items ! idx) idx)],
                  workers := (workers s)[w := Ready]\<rparr>))"

fun run_schedule ::
  "'a list \<Rightarrow> ('a \<Rightarrow> nat \<Rightarrow> js_error + 'b) \<Rightarrow> nat list \<Rightarrow> 'b pool_state \<Rightarrow> 'b pool_state option" where
  "run_schedule items mapper [] s = Some s"
| "run_schedule items mapper (w # ws) s =
     (case worker_step items mapper w s of
        None \<Rightarrow> None
      | Some s' \<Rightarrow> run_schedule items mapper ws s')"

text \<open>\<open>await Promise.all(workers)\<close>: the pool returns once every worker has returned.\<close>

definition all_finished :: "'b pool_state \<Rightarrow> bool" where
  "all_finished s = (\<forall>w \<in> set (workers s). w = Finished)"

text \<open>The array the pool resolves to under a schedule; \<open>None\<close> while it has not returned.\<close>

definition mapWithConcurrency ::
  "'a list \<Rightarrow> nat \<Rightarrow> ('a \<Rightarrow> nat \<Rightarrow> js_error + 'b) \<Rightarrow> nat list \<Rightarrow> 'b pool_entry list option" where
  "mapWithConcurrency items limit mapper schedule =
     (case run_schedule items mapper schedule (pool_start items limit) of
        None \<Rightarrow> None
      | Some s \<Rightarrow> if all_finished s then Some (results s) else None)"

section \<open>The game status protocol\<close>

text \<open>\<open>writeVarInt\<close>: \<open>value >>> 0\<close> is the value modulo \<open>2 ^ 32\<close>; each byte takes seven
  bits, with the high bit set on all but the last.\<close>

function writeVarInt_loop :: "32 word \<Rightarrow> byte list \<Rightarrow> byte list" where
  "writeVarInt_loop v bytes =
     (if v AND 0xffffff80 = 0 then bytes @ [ucast v]
      else writeVarInt_loop (drop_bit 7 v) (bytes @ [ucast ((v AND 0x7f) OR 0x80)]))"
  by pat_completeness auto
termination
proof (relation "measure (\<lambda>(v, bytes). unat v)")
  fix v :: "32 word" and bytes :: "byte list"
  assume "v AND 0xffffff80 \<noteq> 0"
  then have "v \<noteq> 0" by auto
  then have "0 < unat v" by (simp add: unat_gt_0)
  moreover have "unat (drop_bit 7 v) = unat v div 2 ^ 7"
    by (simp add: drop_bit_eq_div unat_div)
  ultimately have "unat (drop_bit 7 v) < unat v" by simp
  then show "((drop_bit 7 v, bytes @ [ucast ((v AND 0x7f) OR 0x80)]), (v, bytes))
               \<in> measure (\<lambda>(v, bytes). unat v)"
    by simp
qed simp

declare writeVarInt_loop.simps [simp del]

definition writeVarInt :: "int \<Rightarrow> byte list" where
  "writeVarInt v = writeVarInt_loop (word_of_int v) []"

text \<open>
  \<open>readVarInt\<close> returns \<open>null\<close> (here \<open>None\<close>) or \<open>{value, size}\<close>. The accumulator
  \<open>result\<close> is a 32-bit integer after \<open>|=\<close>, read back signed; \<open><<\<close> takes its shift count
  modulo 32. A read outside the buffer gives \<open>undefined\<close>, which both \<open>&\<close> turn into 0.
\<close>

record varint =
  value_vi :: int
  size_vi :: nat

definition buf_byte :: "byte list \<Rightarrow> int \<Rightarrow> byte" where
  "buf_byte buf i = (if 0 \<le> i \<and> i < int (length buf) then buf ! nat i else 0)"

function readVarInt_loop :: "byte list \<Rightarrow> int \<Rightarrow> nat \<Rightarrow> 32 word \<Rightarrow> varint option" where
  "readVarInt_loop buf offset numRead result =
     (if int (length buf) \<le> offset + int numRead then None
      else
        let byte = buf_byte buf (offset + int numRead);
            result' = result OR push_bit ((7 * numRead) mod 32) (ucast (byte AND 0x7f));
            numRead' = numRead + 1
        in if 5 < numRead' then None
           else if byte AND 0x80 \<noteq> 0 then readVarInt_loop buf offset numRead' result'
           else Some \<lparr>value_vi = sint result', size_vi = numRead'\<rparr>)"
  by pat_completeness auto
termination
  by (relation "measure (\<lambda>(buf, offset, numRead, result). 6 - numRead)") auto

declare readVarInt_loop.simps [simp del]

definition readVarInt :: "byte list \<Rightarrow> int \<Rightarrow> varint option" where
  "readVarInt buf offset = readVarInt_loop buf offset 0 0"




text \<open>The own properties copied by an object spread; only objects are spread here.\<close>

fun spread :: "jsval \<Rightarrow> (string \<times> jsval) list" where
  "spread (JObj fs) = fs"
| "spread v = []"

text \<open>\<open>Buffer.from(str, 'utf8')\<close>: a string is kept as its UTF-8 bytes already.\<close>

definition utf8_bytes :: "string \<Rightarrow> byte list" where
  "utf8_bytes str = map of_char str"

definition writeString :: "string \<Rightarrow> byte list" where
  "writeString str = (let strBuf = utf8_bytes str in writeVarInt (int (length strBuf)) @ strBuf)"

text \<open>\<open>portBuf.writeUInt16BE(port, 0)\<close> throws a RangeError outside 0..65535.\<close>

definition writeUInt16BE :: "int \<Rightarrow> js_error + byte list" where
  "writeUInt16BE v =
     (if 0 \<le> v \<and> v \<le> 65535 then Inr [word_of_int (v div 256), word_of_int (v mod 256)]
      else Inl RangeError)"

definition buildMcHandshakePacket :: "string \<Rightarrow> int \<Rightarrow> int \<Rightarrow> js_error + byte list" where
  "buildMcHandshakePacket host port protocolVersion =
     (let packetId = writeVarInt 0x00;
          pv = writeVarInt protocolVersion;
          hostStr = writeString host
      in js_bind (writeUInt16BE port) (\<lambda>portBuf.
           let nextState = writeVarInt 0x01;
               data = packetId @ pv @ hostStr @ portBuf @ nextState
           in Inr (writeVarInt (int (length data)) @ data)))"

definition buildMcStatusRequestPacket :: "byte list" where
  "buildMcStatusRequestPacket =
     (let packetId = writeVarInt 0x00; data = packetId
      in writeVarInt (int (length data)) @ data)"




section \<open>Checker routing\<close>

datatype checker = Http | Tcp | NoChecker

definition chooseChecker :: "(jsval \<Rightarrow> number) \<Rightarrow> jsval \<Rightarrow> js_error + checker" where
  "chooseChecker conv server =
     js_bind (get_prop server ''url'') (\<lambda>url.
       if isHttpUrl url then Inr Http
       else js_bind (pickHostPort conv server) (\<lambda>(host, port).
         if usableHostPort host port then Inr Tcp
         else Inr NoChecker))"

text \<open>
  The world outside the script: the runtime's conversions, the network and the file system.
  \<open>rt_fetch\<close> gives the status of the response, or \<open>None\<close> when the request fails or
  passes its time limit; \<open>rt_tcp\<close> gives whether the socket connected, or the error with
  which the connection attempt throws or its promise rejects. Every network call a check
  makes is recorded in a log.
\<close>

datatype io_call = HttpGet jsval number | TcpConnect jsval jsval number

datatype fs_op = WriteFile string jsval | Rename string string

record env =
  rt_conv :: "jsval \<Rightarrow> number"
  rt_fetch :: "jsval \<Rightarrow> number \<Rightarrow> nat option"
  rt_tcp :: "jsval \<Rightarrow> jsval \<Rightarrow> number \<Rightarrow> js_error + bool"
  rt_elapsed :: "io_call \<Rightarrow> number"
  rt_readFile :: "string \<Rightarrow> js_error + byte list"
  rt_jsonParse :: "byte list \<Rightarrow> jsval option"
  rt_now :: string
  rt_tmpPath :: "string \<Rightarrow> string"
  rt_writeFile :: "string \<Rightarrow> js_error option"
  rt_rename :: "string \<Rightarrow> string \<Rightarrow> js_error option"

definition DEFAULT_TIMEOUT_MS :: rat where
  "DEFAULT_TIMEOUT_MS = 3500"

definition CONCURRENCY :: nat where
  "CONCURRENCY = 10"

definition CONFIG_PATH :: string where
  "CONFIG_PATH = ''../frontend/servers.config.json''"

definition STATUS_PATH :: string where
  "STATUS_PATH = ''../frontend/servers.status.json''"

definition checkHttp :: "env \<Rightarrow> jsval \<Rightarrow> number \<Rightarrow> jsval \<times> io_call list" where
  "checkHttp env url timeoutMs =
     (let online = (case rt_fetch env url timeoutMs of
                      Some status \<Rightarrow> 200 \<le> status \<and> status < 400
                    | None \<Rightarrow> False)
      in (JObj [(''online'', JBool online), (''rttMs'', JNum (rt_elapsed env (HttpGet url timeoutMs)))],
          [HttpGet url timeoutMs]))"

definition checkTcp :: "env \<Rightarrow> jsval \<Rightarrow> jsval \<Rightarrow> number \<Rightarrow> (js_error + jsval) \<times> io_call list" where
  "checkTcp env host port timeoutMs =
     (case rt_tcp env host port timeoutMs of
        Inl err \<Rightarrow> (Inl err, [TcpConnect host port timeoutMs])
      | Inr online \<Rightarrow>
          (Inr (JObj [(''online'', JBool online),
                      (''rttMs'', JNum (rt_elapsed env (TcpConnect host port timeoutMs)))]),
           [TcpConnect host port timeoutMs]))"

text \<open>
  \<open>runCheck\<close>. The time limit \<open>Number(server.timeoutMs)\<close> is computed first, before the
  target is tested for being enabled or addressable, so a conversion that throws makes the
  check reject whatever the target is. The second \<open>Number(server.timeoutMs)\<close> gives the value
  of the first.
\<close>

definition runCheck :: "env \<Rightarrow> jsval \<Rightarrow> (js_error + jsval) \<times> io_call list" where
  "runCheck env server =
     (case get_prop server ''timeoutMs'' of
        Inl err \<Rightarrow> (Inl err, [])
      | Inr t \<Rightarrow>
          (case Number_js (rt_conv env) t of
             Inl err \<Rightarrow> (Inl err, [])
           | Inr n \<Rightarrow>
               let timeoutMs = (if number_gt0 n then n else Finite DEFAULT_TIMEOUT_MS)
               in if \<not> isEnabled server
                  then (Inr (JObj [(''online'', JBool False), (''disabled'', JBool True)]), [])
                  else case shouldSkipPoll (rt_conv env) server of
                    Inl err \<Rightarrow> (Inl err, [])
                  | Inr skip \<Rightarrow>
                      if skip
                      then (Inr (JObj [(''online'', JBool False), (''skipped'', JBool True)]), [])
                      else case chooseChecker (rt_conv env) server of
                        Inl err \<Rightarrow> (Inl err, [])
                      | Inr checker \<Rightarrow>
                          if checker = Http
                          then (case get_prop server ''url'' of
                                  Inl err \<Rightarrow> (Inl err, [])
                                | Inr url \<Rightarrow>
                                    (Inr (fst (checkHttp env url timeoutMs)),
                                     snd (checkHttp env url timeoutMs)))
                          else if checker = Tcp
                          then (case pickHostPort (rt_conv env) server of
                                  Inl err \<Rightarrow> (Inl err, [])
                                | Inr (host, port) \<Rightarrow> checkTcp env host port timeoutMs)
                          else (Inr (JObj [(''online'', JBool False)]), [])))"

section \<open>One tick\<close>

definition readJsonIfExists :: "env \<Rightarrow> string \<Rightarrow> jsval \<Rightarrow> js_error + jsval" where
  "readJsonIfExists env filePath fallbackValue =
     (case rt_readFile env filePath of
        Inl err \<Rightarrow>
          if err = FsError ''ENOENT'' \<or> err = FsError ''ENOTDIR'' then Inr fallbackValue
          else Inl err
      | Inr buf \<Rightarrow>
          (case rt_jsonParse env buf of
             None \<Rightarrow> Inl SyntaxError
           | Some v \<Rightarrow> Inr v))"

text \<open>\<open>atomicWriteJson\<close>: the JSON text of \<open>data\<close> goes to a temporary sibling file, which
  is then renamed over the destination. The log keeps the operations that completed.\<close>

definition atomicWriteJson :: "env \<Rightarrow> string \<Rightarrow> jsval \<Rightarrow> js_error option \<times> fs_op list" where
  "atomicWriteJson env filePath data =
     (let tmpPath = rt_tmpPath env filePath in
      case rt_writeFile env tmpPath of
        Some err \<Rightarrow> (Some err, [])
      | None \<Rightarrow>
          (case rt_rename env tmpPath filePath of
             Some err \<Rightarrow> (Some err, [WriteFile tmpPath data])
           | None \<Rightarrow> (None, [WriteFile tmpPath data, Rename tmpPath filePath])))"

definition normalizeStatusArray :: "jsval \<Rightarrow> jsval list" where
  "normalizeStatusArray maybe = (case maybe of JArr xs \<Rightarrow> xs | _ \<Rightarrow> [])"

definition makeStatusIndex :: "jsval list \<Rightarrow> (string \<times> jsval) list" where
  "makeStatusIndex statusArr =
     foldl (\<lambda>m item.
              if truthy item
              then (case read_prop item ''id'' of JStr s \<Rightarrow> AList.update s item m | _ \<Rightarrow> m)
              else m)
       [] statusArr"

text \<open>\<open>statusIndex.get(id)\<close>: the index has string keys only.\<close>

definition index_get :: "(string \<times> jsval) list \<Rightarrow> jsval \<Rightarrow> jsval" where
  "index_get statusIndex id' =
     (case id' of
        JStr s \<Rightarrow> (case map_of statusIndex s of Some item \<Rightarrow> item | None \<Rightarrow> JUndefined)
      | _ \<Rightarrow> JUndefined)"

text \<open>\<open>typeof id !== 'string' || !id.trim()\<close>\<close>

definition invalid_id :: "jsval \<Rightarrow> bool" where
  "invalid_id id' = (case id' of JStr s \<Rightarrow> trim s = [] | _ \<Rightarrow> True)"

text \<open>The mapper that \<open>main\<close> hands to the pool (its second argument, the index, is unused).\<close>

definition main_mapper ::
  "env \<Rightarrow> (string \<times> jsval) list \<Rightarrow> string \<Rightarrow> jsval \<Rightarrow> nat \<Rightarrow> js_error + jsval" where
  "main_mapper env statusIndex checkedAt server idx =
     js_bind (get_prop server ''id'') (\<lambda>id'.
       let base = (if truthy (index_get statusIndex id') then index_get statusIndex id'
                   else JObj [(''id'', id')])
       in if invalid_id id' then Inr JNull
          else js_bind (fst (runCheck env server)) (\<lambda>result.
            let next = AList.update ''lastCheckAt'' (JStr checkedAt)
                         (AList.update ''online'' (JBool (truthy (read_prop result ''online'')))
                            (AList.update ''id'' id' (spread base)));
                next = (if read_prop result ''players'' \<noteq> JUndefined
                        then AList.update ''players'' (read_prop result ''players'') next
                        else AList.delete ''players'' next);
                next = (if read_prop result ''version'' \<noteq> JUndefined
                        then AList.update ''version'' (read_prop result ''version'') next
                        else AList.delete ''version'' next)
            in Inr (JObj next)))"

text \<open>
  One round of the loop that fills \<open>nextStatus\<close>. An error marker \<open>{__error: err}\<close> has no
  \<open>id\<close> and is passed over like \<open>null\<close>. The ids that reach the assignment are strings, as
  the mapper returns \<open>null\<close> for any other. \<open>nextStatus\<close> is a plain object, so the
  assignment \<open>nextStatus["__proto__"] = ...\<close> sets its prototype and adds no own property.
\<close>

definition status_entry :: "(string \<times> jsval) list \<Rightarrow> jsval pool_entry \<Rightarrow> (string \<times> jsval) list" where
  "status_entry nextStatus entry =
     (case entry of
        Result item \<Rightarrow>
          if \<not> truthy item \<or> \<not> truthy (read_prop item ''id'') then nextStatus
          else (case read_prop item ''id'' of
                  JStr id' \<Rightarrow>
                    let online = read_prop item ''online'';
                        lastCheckAt = read_prop item ''lastCheckAt'';
                        players = read_prop item ''players'';
                        version = read_prop item ''version'';
                        record = [(''online'', online), (''lastCheckAt'', lastCheckAt)]
                                 @ (if players \<noteq> JUndefined then [(''players'', players)] else [])
                                 @ (if version \<noteq> JUndefined then [(''version'', version)] else [])
                    in if id' = ''__proto__'' then nextStatus
                       else AList.update id' (JObj record) nextStatus
                | _ \<Rightarrow> nextStatus)
      | ErrorMarker err \<Rightarrow> nextStatus
      | Hole \<Rightarrow> nextStatus)"

definition buildNextStatus :: "jsval pool_entry list \<Rightarrow> (string \<times> jsval) list" where
  "buildNextStatus results' = foldl status_entry [] results'"

text \<open>
  \<open>main\<close>, one tick. \<open>outcome\<close> is \<open>Inl\<close> the error with which \<open>main()\<close> rejects, or
  \<open>Inr\<close> the value it left in \<open>process.exitCode\<close>, if any. The result is \<open>None\<close> while
  the pool has not returned under the given schedule. The \<open>config.filter\<close> passes only feed
  the console, and reading \<open>s.id\<close> there cannot throw: a disabled entry is not null. After
  the snapshot is written, the closing \<open>console.log\<close> joins the ids of the disabled targets
  with \<open>join(", ")\<close>, which converts every id other than null and undefined to a string and
  throws a TypeError when that conversion does: \<open>main()\<close> then rejects, the snapshot being
  already on disk.
\<close>

definition disabled_ids :: "jsval list \<Rightarrow> jsval list" where
  "disabled_ids config = map (\<lambda>s. read_prop s ''id'') (filter (\<lambda>s. \<not> isEnabled s) config)"

definition join_throws :: "jsval list \<Rightarrow> bool" where
  "join_throws xs = (\<exists>x \<in> set xs. ToPrimitive_throws x)"

record tick =
  outcome :: "js_error + nat option"
  fs_ops :: "fs_op list"

definition main :: "env \<Rightarrow> nat list \<Rightarrow> tick option" where
  "main env schedule =
     (case readJsonIfExists env CONFIG_PATH JNull of
        Inl err \<Rightarrow> Some \<lparr>outcome = Inl err, fs_ops = []\<rparr>
      | Inr config \<Rightarrow>
          if \<not> truthy config then Some \<lparr>outcome = Inr (Some 2), fs_ops = []\<rparr>
          else case config of
            JArr targets \<Rightarrow>
              (case readJsonIfExists env STATUS_PATH (JArr []) of
                 Inl err \<Rightarrow> Some \<lparr>outcome = Inl err, fs_ops = []\<rparr>
               | Inr existingStatusRaw \<Rightarrow>
                   let existingStatus = normalizeStatusArray existingStatusRaw;
                       statusIndex = makeStatusIndex existingStatus;
                       checkedAt = rt_now env
                   in case mapWithConcurrency targets CONCURRENCY
                             (main_mapper env statusIndex checkedAt) schedule of
                        None \<Rightarrow> None
                      | Some results' \<Rightarrow>
                          let nextStatus = buildNextStatus results' in
                          (case atomicWriteJson env STATUS_PATH (JObj nextStatus) of
                             (Some err, ops) \<Rightarrow> Some \<lparr>outcome = Inl err, fs_ops = ops\<rparr>
                           | (None, ops) \<Rightarrow>
                               if join_throws (disabled_ids targets)
                               then Some \<lparr>outcome = Inl TypeError, fs_ops = ops\<rparr>
                               else Some \<lparr>outcome = Inr None, fs_ops = ops\<rparr>))
          | _ \<Rightarrow> Some \<lparr>outcome = Inr (Some 2), fs_ops = []\<rparr>)"

text \<open>The exit code after a tick: the \<open>catch\<close> handlers of the entry point set 1 when
  \<open>main()\<close> rejects.\<close>

definition exit_code :: "tick \<Rightarrow> nat" where
  "exit_code t = (case outcome t of Inl err \<Rightarrow> 1 | Inr None \<Rightarrow> 0 | Inr (Some c) \<Rightarrow> c)"

section \<open>Entry point\<close>

text \<open>
  The calls of \<open>main()\<close> made while the script is loaded, each with the place it is made
  from. \<open>runOnce\<close> calls \<open>main\<close>; \<open>runWatch\<close> calls \<open>runOnce\<close> and installs the interval
  only after that tick; the last statement of the script calls \<open>main\<close> again. \<open>main\<close>
  suspends at its first \<open>await\<close>, so every call listed is in flight when loading ends.
\<close>

datatype call_site = ViaRunOnce | AtEndOfScript

definition runOnce :: "call_site list" where
  "runOnce = [ViaRunOnce]"

definition runWatch :: "call_site list" where
  "runWatch = runOnce"

definition script :: "string list \<Rightarrow> call_site list" where
  "script argv =
     (let watch = (''--watch'' \<in> set argv \<or> ''-w'' \<in> set argv)
      in (if watch then runWatch else runOnce) @ [AtEndOfScript])"


section \<open>Notions used in the proofs\<close>

text \<open>
  The invariant of the pool: every slot of \<open>results\<close> is still empty or holds the outcome
  of its own item; a slot whose index has been taken is filled unless a worker is still
  waiting for it; a waiting worker waits for an index inside the array; and a worker has
  returned only after the cursor passed the end.
\<close>

definition pool_inv :: "'a list \<Rightarrow> ('a \<Rightarrow> nat \<Rightarrow> js_error + 'b) \<Rightarrow> nat \<Rightarrow> 'b pool_state \<Rightarrow> bool" where
  "pool_inv items mapper limit s =
     (length (results s) = length items
      \<and> length (workers s) = min limit (length items)
      \<and> (\<forall>idx < length items.
            results s ! idx = Hole \<or> results s ! idx = settle (mapper (items ! idx) idx))
      \<and> (\<forall>idx < length items.
            idx < cursor_i s \<longrightarrow>
              Awaiting idx \<in> set (workers s) \<or> results s ! idx = settle (mapper (items ! idx) idx))
      \<and> (\<forall>idx. Awaiting idx \<in> set (workers s) \<longrightarrow> idx < length items)
      \<and> (Finished \<in> set (workers s) \<longrightarrow> length items \<le> cursor_i s))"

text \<open>The number of steps the pool still has to make.\<close>

fun worker_cost :: "worker \<Rightarrow> nat" where
  "worker_cost Finished = 0"
| "worker_cost Ready = 1"
| "worker_cost (Awaiting idx) = 2"

definition pool_measure :: "'a list \<Rightarrow> 'b pool_state \<Rightarrow> nat" where
  "pool_measure items s =
     2 * (length items - cursor_i s) + sum_list (map worker_cost (workers s))"

text \<open>
  What one target adds to the snapshot: the record built from the result of its check, under
  its id, when the id is a non-blank string other than \<open>__proto__\<close> and the check did not
  throw; nothing otherwise.
\<close>

definition status_record :: "jsval \<Rightarrow> string \<Rightarrow> jsval" where
  "status_record r now =
     JObj ([(''online'', JBool (truthy (read_prop r ''online''))), (''lastCheckAt'', JStr now)]
           @ (if read_prop r ''players'' \<noteq> JUndefined then [(''players'', read_prop r ''players'')] else [])
           @ (if read_prop r ''version'' \<noteq> JUndefined then [(''version'', read_prop r ''version'')] else []))"

definition emitted :: "env \<Rightarrow> jsval \<Rightarrow> (string \<times> jsval) option" where
  "emitted env server =
     (case read_prop server ''id'' of
        JStr k \<Rightarrow>
          if trim k = [] \<or> k = ''__proto__'' then None
          else (case fst (runCheck env server) of
                  Inl err \<Rightarrow> None
                | Inr r \<Rightarrow> Some (k, status_record r (rt_now env)))
      | _ \<Rightarrow> None)"

section \<open>Sample inputs\<close>

text \<open>
  Concrete surroundings on which the theorems are exercised. \<open>unconvertible\<close> is the
  conversion to a number of a value that is no numeric text. In \<open>sample_env\<close> the file
  system is a table of files, \<open>JSON.parse\<close> a table of documents (anything else does not
  parse), every HTTP request is answered with status 200, and a TCP connection succeeds
  except to port 70000, where \<open>socket.connect\<close> throws a RangeError as Node does for a
  port above 65535.
\<close>

definition unconvertible :: "jsval \<Rightarrow> number" where
  "unconvertible v = NaN"

definition sample_env :: "(string \<times> byte list) list \<Rightarrow> (byte list \<times> jsval) list \<Rightarrow> env" where
  "sample_env files docs =
     \<lparr>rt_conv = unconvertible,
      rt_fetch = (\<lambda>url timeoutMs. Some 200),
      rt_tcp = (\<lambda>host port timeoutMs.
                  if port = JNum (Finite 70000) then Inl RangeError else Inr True),
      rt_elapsed = (\<lambda>call. Finite 12),
      rt_readFile = (\<lambda>filePath. case map_of files filePath of
                                     Some buf \<Rightarrow> Inr buf
                                   | None \<Rightarrow> Inl (FsError ''ENOENT'')),
      rt_jsonParse = map_of docs,
      rt_now = ''2026-01-01T00:00:00.000Z'',
      rt_tmpPath = (\<lambda>filePath. ''../frontend/.servers.status.json.4242.1767225600000.tmp''),
      rt_writeFile = (\<lambda>filePath. None),
      rt_rename = (\<lambda>tmpPath filePath. None)\<rparr>"





text \<open>
  Four surroundings for a tick. In \<open>tick_env\<close> the configuration has five targets and
  the previous snapshot, in the array form that \<open>normalizeStatusArray\<close> accepts, holds
  \<open>players\<close> and \<open>version\<close> for \<open>web\<close>. In \<open>failing_env\<close> the check of target \<open>a\<close>
  throws. In \<open>corrupt_env\<close> the previous snapshot is cut off in the middle. In
  \<open>unprintable_env\<close> the time limit of the disabled target \<open>late\<close> cannot be converted to a
  number, and the id of another disabled target cannot be converted to a string.
\<close>

definition config_text :: string where
  \<open>config_text = ''[{"id":"web","url":"http://example.org"},{"id":"mc","ip":"0.0.0.0","port":25565},{"id":"off","host":"10.0.0.5","port":22,"enabled":"false"},{"id":"  ","port":80},{"port":80}]''\<close>

definition config_targets :: "jsval list" where
  "config_targets =
     [JObj [(''id'', JStr ''web''), (''url'', JStr ''http://example.org'')],
      JObj [(''id'', JStr ''mc''), (''ip'', JStr ''0.0.0.0''), (''port'', JNum (Finite 25565))],
      JObj [(''id'', JStr ''off''), (''host'', JStr ''10.0.0.5''), (''port'', JNum (Finite 22)),
            (''enabled'', JStr ''false'')],
      JObj [(''id'', JStr ''  ''), (''port'', JNum (Finite 80))],
      JObj [(''port'', JNum (Finite 80))]]"

definition previous_text :: string where
  \<open>previous_text = ''[{"id":"web","online":false,"players":{"online":1,"max":2},"version":"old"}]''\<close>

definition previous_status :: jsval where
  "previous_status =
     JArr [JObj [(''id'', JStr ''web''), (''online'', JBool False),
                 (''players'', JObj [(''online'', JNum (Finite 1)), (''max'', JNum (Finite 2))]),
                 (''version'', JStr ''old'')]]"

definition tick_env :: env where
  "tick_env = sample_env
     [(CONFIG_PATH, utf8_bytes config_text), (STATUS_PATH, utf8_bytes previous_text)]
     [(utf8_bytes config_text, JArr config_targets), (utf8_bytes previous_text, previous_status)]"

definition failing_config_text :: string where
  \<open>failing_config_text = ''[{"id":"a","host":"10.0.0.1","port":70000},{"id":"b","enabled":false}]''\<close>

definition failing_config_targets :: "jsval list" where
  "failing_config_targets =
     [JObj [(''id'', JStr ''a''), (''host'', JStr ''10.0.0.1''), (''port'', JNum (Finite 70000))],
      JObj [(''id'', JStr ''b''), (''enabled'', JBool False)]]"

definition failing_env :: env where
  "failing_env = sample_env
     [(CONFIG_PATH, utf8_bytes failing_config_text)]
     [(utf8_bytes failing_config_text, JArr failing_config_targets)]"

definition corrupt_env :: env where
  \<open>corrupt_env = sample_env
     [(CONFIG_PATH, utf8_bytes config_text), (STATUS_PATH, utf8_bytes ''{"web":{"online":tr'')]
     [(utf8_bytes config_text, JArr config_targets)]\<close>

definition unprintable_config_text :: string where
  \<open>unprintable_config_text = ''[{"id":"ok","enabled":false},{"id":"late","enabled":false,"timeoutMs":{"toString":1}},{"id":{"toString":1},"enabled":false}]''\<close>

definition unprintable_config_targets :: "jsval list" where
  "unprintable_config_targets =
     [JObj [(''id'', JStr ''ok''), (''enabled'', JBool False)],
      JObj [(''id'', JStr ''late''), (''enabled'', JBool False),
            (''timeoutMs'', JObj [(''toString'', JNum (Finite 1))])],
      JObj [(''id'', JObj [(''toString'', JNum (Finite 1))]), (''enabled'', JBool False)]]"

definition unprintable_env :: env where
  "unprintable_env = sample_env
     [(CONFIG_PATH, utf8_bytes unprintable_config_text)]
     [(utf8_bytes unprintable_config_text, JArr unprintable_config_targets)]"

section \<open>Properties of the varint codec\<close>

lemma drop7_less: "v AND 0xffffff80 \<noteq> 0 \<Longrightarrow> unat (drop_bit 7 v) < unat (v :: 32 word)"
proof -
  assume a: "v AND 0xffffff80 \<noteq> 0"
  then have "v \<noteq> 0" by auto
  then have "0 < unat v" by (simp add: unat_gt_0)
  moreover have "unat (drop_bit 7 v) = unat v div 2 ^ 7"
    by (simp add: drop_bit_eq_div unat_div)
  ultimately show ?thesis by simp
qed

lemma hi_const: "(0xffffff80 :: 32 word) = NOT (mask 7)"
  by (simp add: mask_eq_exp_minus_1)

lemma lo_const: "(0x7f :: 'a::len word) = mask 7"
  by (simp add: mask_eq_exp_minus_1)

lemma bit_128_iff: "bit (128 :: int) n \<longleftrightarrow> n = 7"
proof -
  have e: "(128 :: int) = 2 ^ 7" by simp
  show ?thesis by (simp only: e bit_exp_iff) auto
qed

lemma hi_zero_iff: "(v AND 0xffffff80 = 0) = (v < (128 :: 32 word))"
proof
  assume a: "v AND 0xffffff80 = 0"
  have "v AND mask 7 = v"
  proof (rule bit_word_eqI)
    fix n assume n: "n < LENGTH(32)"
    have "\<not> bit (v AND NOT (mask 7)) n" using a by (simp add: hi_const)
    then show "bit (v AND mask 7) n = bit v n"
      using n by (auto simp: bit_simps)
  qed
  moreover have "v AND mask 7 < 2 ^ 7"
    by (rule and_mask_less_size) (simp add: word_size)
  ultimately show "v < 128" by simp
next
  assume "v < 128"
  then have e: "v AND mask 7 = v" by (simp add: less_mask_eq)
  have "(v AND mask 7) AND NOT (mask 7) = 0"
    by (rule bit_word_eqI) (auto simp: bit_simps)
  then show "v AND 0xffffff80 = 0" by (simp add: e hi_const)
qed

lemma split7: "(v AND 0x7f) OR push_bit 7 (drop_bit 7 v) = (v :: 32 word)"
proof (rule bit_word_eqI)
  fix n assume n: "n < LENGTH(32)"
  show "bit ((v AND 0x7f) OR push_bit 7 (drop_bit 7 v)) n = bit v n"
    using n by (cases "n < 7") (auto simp: lo_const bit_simps)
qed

lemma cont_byte_lo: "(ucast ((ucast ((v AND 0x7f) OR 0x80) :: byte) AND 0x7f) :: 32 word) = (v :: 32 word) AND 0x7f"
  by (rule bit_word_eqI) (auto simp: lo_const bit_simps bit_128_iff)

lemma cont_byte_hi: "(ucast (((v :: 32 word) AND 0x7f) OR 0x80) :: byte) AND 0x80 \<noteq> 0"
proof -
  have "bit ((ucast (((v :: 32 word) AND 0x7f) OR 0x80) :: byte) AND 0x80) 7"
    by (simp add: bit_simps bit_128_iff)
  then show ?thesis by auto
qed

lemma last_byte_lo: "v < 128 \<Longrightarrow> (ucast ((ucast (v :: 32 word) :: byte) AND 0x7f) :: 32 word) = v"
proof -
  assume "v < 128"
  then have "v AND mask 7 = v" by (simp add: less_mask_eq)
  moreover have "(ucast ((ucast (v :: 32 word) :: byte) AND mask 7) :: 32 word) = v AND mask 7"
    by (rule bit_word_eqI) (auto simp: bit_simps)
  ultimately show ?thesis by (simp add: lo_const)
qed

lemma last_byte_hi: "v < 128 \<Longrightarrow> (ucast (v :: 32 word) :: byte) AND 0x80 = 0"
proof -
  assume "v < 128"
  then have e: "v AND mask 7 = v" by (simp add: less_mask_eq)
  have "(ucast (v AND mask 7 :: 32 word) :: byte) AND 0x80 = 0"
    by (rule bit_word_eqI) (auto simp: bit_simps bit_128_iff)
  then show ?thesis by (simp add: e)
qed

lemma writeVarInt_loop_append: "writeVarInt_loop v bytes = bytes @ writeVarInt_loop v []"
proof (induction v arbitrary: bytes rule: measure_induct_rule [where f = unat])
  case (less v)
  show ?case
  proof (cases "v AND 0xffffff80 = 0")
    case True
    then show ?thesis by (simp add: writeVarInt_loop.simps)
  next
    case False
    let ?b = "ucast ((v AND 0x7f) OR 0x80) :: byte"
    have step: "writeVarInt_loop v bs = writeVarInt_loop (drop_bit 7 v) (bs @ [?b])" for bs
      using False by (subst writeVarInt_loop.simps) simp
    have ih: "writeVarInt_loop (drop_bit 7 v) bs = bs @ writeVarInt_loop (drop_bit 7 v) []" for bs
      using less [OF drop7_less [OF False]] .
    show ?thesis
      using step [of bytes] step [of "[]"] ih [of "bytes @ [?b]"] ih [of "[?b]"] by simp
  qed
qed

lemma writeVarInt_loop_last: "v < 128 \<Longrightarrow> writeVarInt_loop v [] = [ucast v]"
  by (subst writeVarInt_loop.simps) (simp add: hi_zero_iff)

lemma writeVarInt_loop_more:
  "\<not> v < 128 \<Longrightarrow>
   writeVarInt_loop v [] = ucast ((v AND 0x7f) OR 0x80) # writeVarInt_loop (drop_bit 7 v) []"
  by (subst writeVarInt_loop.simps, subst writeVarInt_loop_append) (simp add: hi_zero_iff)

lemma writeVarInt_loop_length:
  "unat v < 2 ^ (7 * Suc n) \<Longrightarrow> length (writeVarInt_loop v []) \<le> Suc n"
proof (induction n arbitrary: v)
  case 0
  then have "v < 128" by (simp add: word_less_nat_alt)
  then show ?case by (simp add: writeVarInt_loop_last)
next
  case (Suc n)
  show ?case
  proof (cases "v < 128")
    case True
    then show ?thesis by (simp add: writeVarInt_loop_last)
  next
    case False
    have "unat (drop_bit 7 v) = unat v div 2 ^ 7"
      by (simp add: drop_bit_eq_div unat_div)
    moreover have "unat v < 2 ^ (7 * Suc n) * 2 ^ 7"
      using Suc.prems by (simp add: power_add)
    ultimately have "unat (drop_bit 7 v) < 2 ^ (7 * Suc n)"
      by (simp only: less_mult_imp_div_less)
    then have "length (writeVarInt_loop (drop_bit 7 v) []) \<le> Suc n"
      by (rule Suc.IH)
    then show ?thesis using False by (simp add: writeVarInt_loop_more)
  qed
qed

lemma writeVarInt_loop_length5: "length (writeVarInt_loop v []) \<le> 5"
proof -
  have "unat v < 2 ^ 32" using unsigned_less [of v] by simp
  then have "unat v < 2 ^ (7 * Suc 4)" by simp
  then show ?thesis using writeVarInt_loop_length [of v 4] by simp
qed

lemma writeVarInt_loop_nonempty: "writeVarInt_loop v [] \<noteq> []"
  by (cases "v < 128") (simp_all add: writeVarInt_loop_last writeVarInt_loop_more)

lemma readVarInt_loop_stop:
  "offset + int k < int (length buf) \<Longrightarrow> k \<le> 4 \<Longrightarrow> buf_byte buf (offset + int k) = b \<Longrightarrow>
   b AND 0x80 = 0 \<Longrightarrow>
   readVarInt_loop buf offset k r =
     Some \<lparr>value_vi = sint (r OR push_bit (7 * k) (ucast (b AND 0x7f))), size_vi = Suc k\<rparr>"
  by (subst readVarInt_loop.simps) (simp add: Let_def)

lemma readVarInt_loop_cont:
  "offset + int k < int (length buf) \<Longrightarrow> k \<le> 4 \<Longrightarrow> buf_byte buf (offset + int k) = b \<Longrightarrow>
   b AND 0x80 \<noteq> 0 \<Longrightarrow>
   readVarInt_loop buf offset k r =
     readVarInt_loop buf offset (Suc k) (r OR push_bit (7 * k) (ucast (b AND 0x7f)))"
  by (subst readVarInt_loop.simps) (simp add: Let_def)

lemma readVarInt_loop_encoded:
  "length pre = k \<Longrightarrow> k + length (writeVarInt_loop v []) \<le> 5 \<Longrightarrow> 0 \<le> offset \<Longrightarrow>
   length front = nat offset \<Longrightarrow>
   readVarInt_loop (front @ pre @ writeVarInt_loop v [] @ rest) offset k r =
     Some \<lparr>value_vi = sint (r OR push_bit (7 * k) v), size_vi = k + length (writeVarInt_loop v [])\<rparr>"
proof (induction v arbitrary: pre k r rule: measure_induct_rule [where f = unat])
  case (less v)
  let ?buf = "front @ pre @ writeVarInt_loop v [] @ rest"
  obtain b bs where enc0: "writeVarInt_loop v [] = b # bs"
    using writeVarInt_loop_nonempty [of v] by (cases "writeVarInt_loop v []") auto
  have k4: "k \<le> 4" using less.prems(2) enc0 by simp
  have inb: "offset + int k < int (length ?buf)"
    using less.prems enc0 by simp
  have byte: "buf_byte ?buf (offset + int k) = b"
    using less.prems enc0 by (simp add: buf_byte_def nth_append nat_add_distrib)
  show ?case
  proof (cases "v < 128")
    case True
    then have b: "b = ucast v" and bs: "bs = []"
      using enc0 by (simp_all add: writeVarInt_loop_last)
    have "readVarInt_loop ?buf offset k r =
            Some \<lparr>value_vi = sint (r OR push_bit (7 * k) (ucast (b AND 0x7f))), size_vi = Suc k\<rparr>"
      using inb k4 byte by (rule readVarInt_loop_stop) (simp add: b last_byte_hi True)
    then show ?thesis
      by (simp add: enc0 bs b last_byte_lo True)
  next
    case False
    have enc: "writeVarInt_loop v [] = ucast ((v AND 0x7f) OR 0x80) # writeVarInt_loop (drop_bit 7 v) []"
      using False by (rule writeVarInt_loop_more)
    then have b: "b = ucast ((v AND 0x7f) OR 0x80)" and bs: "bs = writeVarInt_loop (drop_bit 7 v) []"
      using enc0 by simp_all
    have lt: "unat (drop_bit 7 v) < unat v"
      using False by (intro drop7_less) (simp add: hi_zero_iff)
    have "readVarInt_loop (front @ (pre @ [b]) @ writeVarInt_loop (drop_bit 7 v) [] @ rest) offset (Suc k)
                 (r OR push_bit (7 * k) (v AND 0x7f)) =
               Some \<lparr>value_vi = sint ((r OR push_bit (7 * k) (v AND 0x7f)) OR push_bit (7 * Suc k) (drop_bit 7 v)),
                     size_vi = Suc k + length (writeVarInt_loop (drop_bit 7 v) [])\<rparr>"
      using less.prems by (intro less.IH [OF lt]) (simp_all add: enc)
    then have ih: "readVarInt_loop ?buf offset (Suc k) (r OR push_bit (7 * k) (v AND 0x7f)) =
               Some \<lparr>value_vi = sint ((r OR push_bit (7 * k) (v AND 0x7f)) OR push_bit (7 * Suc k) (drop_bit 7 v)),
                     size_vi = Suc k + length (writeVarInt_loop (drop_bit 7 v) [])\<rparr>"
      by (simp add: enc0 bs)
    have comb: "(r OR push_bit (7 * k) (v AND 0x7f)) OR push_bit (7 * Suc k) (drop_bit 7 v)
                  = r OR push_bit (7 * k) v"
    proof -
      have "push_bit (7 * Suc k) (drop_bit 7 v) = push_bit (7 * k) (push_bit 7 (drop_bit 7 v))"
        by (simp add: push_bit_push_bit add.commute)
      then have "(r OR push_bit (7 * k) (v AND 0x7f)) OR push_bit (7 * Suc k) (drop_bit 7 v)
                  = r OR push_bit (7 * k) ((v AND 0x7f) OR push_bit 7 (drop_bit 7 v))"
        by (simp add: push_bit_or or.assoc)
      then show ?thesis by (simp only: split7)
    qed
    have "readVarInt_loop ?buf offset k r =
            readVarInt_loop ?buf offset (Suc k) (r OR push_bit (7 * k) (ucast (b AND 0x7f)))"
      using inb k4 byte by (rule readVarInt_loop_cont) (simp add: b cont_byte_hi)
    also have "ucast (b AND 0x7f) = v AND 0x7f"
      by (simp add: b cont_byte_lo)
    finally show ?thesis
      by (simp only: ih comb) (simp add: enc)
  qed
qed

lemma sint_word_of_int_32:
  "- (2 ^ 31) \<le> v \<Longrightarrow> v < 2 ^ 31 \<Longrightarrow> sint (word_of_int v :: 32 word) = v"
  by (simp add: sint_sbintrunc' signed_take_bit_int_eq_self)

lemma readVarInt_writeVarInt_gen:
  "0 \<le> offset \<Longrightarrow> length front = nat offset \<Longrightarrow>
   readVarInt (front @ writeVarInt v @ rest) offset =
     Some \<lparr>value_vi = sint (word_of_int v :: 32 word), size_vi = length (writeVarInt v)\<rparr>"
  using readVarInt_loop_encoded [of "[]" 0 "word_of_int v" offset front rest 0]
    writeVarInt_loop_length5 [of "word_of_int v"]
  by (simp add: readVarInt_def writeVarInt_def)

lemma readVarInt_loop_past_end:
  "int (length buf) \<le> offset + int k \<Longrightarrow> readVarInt_loop buf offset k r = None"
  by (subst readVarInt_loop.simps) simp

lemma readVarInt_loop_sixth: "5 \<le> k \<Longrightarrow> readVarInt_loop buf offset k r = None"
  by (subst readVarInt_loop.simps) (simp add: Let_def)

lemma readVarInt_loop_None_iff:
  "0 \<le> offset \<Longrightarrow> k \<le> 5 \<Longrightarrow>
   (readVarInt_loop buf offset k r = None) =
   (\<forall>i. k \<le> i \<and> i < 5 \<and> nat offset + i < length buf \<longrightarrow> buf ! (nat offset + i) AND 0x80 \<noteq> 0)"
proof (induction "5 - k" arbitrary: k r)
  case 0
  then have "k = 5" by simp
  then show ?case by (auto simp: readVarInt_loop_sixth)
next
  case (Suc n)
  then have k4: "k \<le> 4" by simp
  show ?case
  proof (cases "int (length buf) \<le> offset + int k")
    case True
    then have "\<forall>i. k \<le> i \<longrightarrow> \<not> nat offset + i < length buf" using Suc.prems by auto
    then show ?thesis using True by (auto simp: readVarInt_loop_past_end)
  next
    case False
    then have inb: "offset + int k < int (length buf)" by simp
    then have nb: "nat offset + k < length buf" using Suc.prems by auto
    have byte: "buf_byte buf (offset + int k) = buf ! (nat offset + k)"
      using inb Suc.prems by (simp add: buf_byte_def nat_add_distrib)
    show ?thesis
    proof (cases "buf ! (nat offset + k) AND 0x80 = 0")
      case True
      have "readVarInt_loop buf offset k r \<noteq> None"
        using readVarInt_loop_stop [OF inb k4 byte True, of r] by simp
      moreover have "\<not> (\<forall>i. k \<le> i \<and> i < 5 \<and> nat offset + i < length buf \<longrightarrow> buf ! (nat offset + i) AND 0x80 \<noteq> 0)"
        using True nb k4 by (intro notI) (drule spec [of _ k], simp)
      ultimately show ?thesis by blast
    next
      case c: False
      have "readVarInt_loop buf offset k r =
            readVarInt_loop buf offset (Suc k) (r OR push_bit (7 * k) (ucast (buf ! (nat offset + k) AND 0x7f)))"
        using readVarInt_loop_cont [OF inb k4 byte c] .
      also have "(\<dots> = None) = (\<forall>i. Suc k \<le> i \<and> i < 5 \<and> nat offset + i < length buf \<longrightarrow> buf ! (nat offset + i) AND 0x80 \<noteq> 0)"
        using Suc.hyps Suc.prems k4 by (intro Suc.hyps(1)) auto
      also have "\<dots> = (\<forall>i. k \<le> i \<and> i < 5 \<and> nat offset + i < length buf \<longrightarrow> buf ! (nat offset + i) AND 0x80 \<noteq> 0)"
      proof (intro iffI allI impI)
        fix i
        assume a: "\<forall>i. Suc k \<le> i \<and> i < 5 \<and> nat offset + i < length buf \<longrightarrow> buf ! (nat offset + i) AND 0x80 \<noteq> 0"
          and i: "k \<le> i \<and> i < 5 \<and> nat offset + i < length buf"
        show "buf ! (nat offset + i) AND 0x80 \<noteq> 0"
        proof (cases "i = k")
          case True
          then show ?thesis using c by simp
        next
          case False
          then have "Suc k \<le> i" using i by simp
          then show ?thesis using a i by blast
        qed
      next
        fix i
        assume a: "\<forall>i. k \<le> i \<and> i < 5 \<and> nat offset + i < length buf \<longrightarrow> buf ! (nat offset + i) AND 0x80 \<noteq> 0"
          and i: "Suc k \<le> i \<and> i < 5 \<and> nat offset + i < length buf"
        then have "k \<le> i \<and> i < 5 \<and> nat offset + i < length buf" by simp
        then show "buf ! (nat offset + i) AND 0x80 \<noteq> 0" using a by blast
      qed
      finally show ?thesis .
    qed
  qed
qed

lemma readVarInt_loop_size:
  "readVarInt_loop buf offset k r = Some s \<Longrightarrow> k < size_vi s \<and> size_vi s \<le> 5"
proof (induction "6 - k" arbitrary: k r)
  case 0
  then have "5 \<le> k" by simp
  then show ?case using 0 by (simp add: readVarInt_loop_sixth)
next
  case (Suc n)
  from Suc.prems show ?case
    apply (subst (asm) readVarInt_loop.simps)
    apply (simp add: Let_def split: if_splits)
    using Suc.hyps(1) [of "Suc k"] Suc.hyps(2)
     apply fastforce
    apply auto
    done
qed

lemma readVarInt_negative_offset:
  "offset < 0 \<Longrightarrow> readVarInt buf offset = Some \<lparr>value_vi = 0, size_vi = 1\<rparr>"
  unfolding readVarInt_def
  by (subst readVarInt_loop.simps) (simp add: Let_def buf_byte_def)

lemma readVarInt_loop_val:
  "readVarInt_loop buf offset k r = Some s \<Longrightarrow> - (2 ^ 31) \<le> value_vi s \<and> value_vi s < 2 ^ 31"
proof (induction "6 - k" arbitrary: k r)
  case 0
  then have "5 \<le> k" by simp
  then show ?case using 0 by (simp add: readVarInt_loop_sixth)
next
  case (Suc n)
  have rng: "- (2 ^ 31) \<le> sint w \<and> sint w < 2 ^ 31" for w :: "32 word"
    using sint_ge [of w] sint_lt [of w] by simp
  from Suc.prems show ?case
    apply (subst (asm) readVarInt_loop.simps)
    apply (simp add: Let_def split: if_splits)
    using Suc.hyps(1) [of "Suc k"] Suc.hyps(2)
     apply fastforce
    using rng apply auto
    done
qed


text \<open>
  C4, as amended. For every integer \<open>v\<close> with \<open>0 \<le> v < 2 ^ 31\<close>, reading back what
  \<open>writeVarInt\<close> wrote gives the value \<open>v\<close> and a size equal to the number of bytes
  written, which is at most 5.
\<close>

theorem varint_roundtrip:
  "0 \<le> v \<Longrightarrow> v < 2 ^ 31 \<Longrightarrow>
   readVarInt (writeVarInt v) 0 = Some \<lparr>value_vi = v, size_vi = length (writeVarInt v)\<rparr>
   \<and> length (writeVarInt v) \<le> 5"
  using readVarInt_writeVarInt_gen [of 0 "[]" v "[]"] writeVarInt_loop_length5 [of "word_of_int v"]
  by (simp add: sint_word_of_int_32 writeVarInt_def)

theorem varint_roundtrip_witness:
  "(0::int) \<le> 758 \<and> (758::int) < 2 ^ 31
   \<and> readVarInt (writeVarInt 758) 0 = Some \<lparr>value_vi = 758, size_vi = length (writeVarInt 758)\<rparr>
   \<and> length (writeVarInt 758) \<le> 5"
  using varint_roundtrip [of 758] by simp

text \<open>
  The claim as stated includes \<open>v = 2 ^ 31\<close>. There the five bytes written read back as
  \<open>- 2 ^ 31\<close>: the reader accumulates in a signed 32-bit integer.
\<close>

theorem varint_roundtrip_counterexample:
  "readVarInt (writeVarInt (2 ^ 31)) 0 = Some \<lparr>value_vi = - (2 ^ 31), size_vi = 5\<rparr>
   \<and> readVarInt (writeVarInt (2 ^ 31)) 0
       \<noteq> Some \<lparr>value_vi = 2 ^ 31, size_vi = length (writeVarInt (2 ^ 31))\<rparr>"
  by (simp add: readVarInt_def writeVarInt_def readVarInt_loop.simps writeVarInt_loop.simps
      buf_byte_def)

text \<open>
  C10. \<open>readVarInt\<close> is a total function of the buffer and the offset: it returns \<open>null\<close>
  or a record whose size is between 1 and 5 and whose value is a signed 32-bit integer, and
  nothing in it throws. From an offset inside or past the buffer it returns \<open>null\<close> exactly
  when each of the first five positions is past the end of the buffer or holds a byte with
  the continuation flag. So it returns \<open>null\<close> whenever the buffer ends before the varint
  terminates, and whenever five bytes or more carry the flag. A negative offset reads
  \<open>undefined\<close> and gives \<open>{value: 0, size: 1}\<close>.
\<close>

theorem readVarInt_total:
  "(0 \<le> offset \<longrightarrow>
      (readVarInt buf offset = None) =
      (\<forall>i. i < 5 \<and> nat offset + i < length buf \<longrightarrow> buf ! (nat offset + i) AND 0x80 \<noteq> 0))
   \<and> (0 \<le> offset \<and> (\<forall>i. nat offset \<le> i \<and> i < length buf \<longrightarrow> buf ! i AND 0x80 \<noteq> 0)
        \<longrightarrow> readVarInt buf offset = None)
   \<and> (0 \<le> offset \<and> nat offset + 5 \<le> length buf
        \<and> (\<forall>i. i < 5 \<longrightarrow> buf ! (nat offset + i) AND 0x80 \<noteq> 0)
        \<longrightarrow> readVarInt buf offset = None)
   \<and> (offset < 0 \<longrightarrow> readVarInt buf offset = Some \<lparr>value_vi = 0, size_vi = 1\<rparr>)
   \<and> (\<forall>r. readVarInt buf offset = Some r \<longrightarrow>
          1 \<le> size_vi r \<and> size_vi r \<le> 5 \<and> - (2 ^ 31) \<le> value_vi r \<and> value_vi r < 2 ^ 31)"
proof (intro conjI impI allI)
  assume "0 \<le> offset"
  then show "(readVarInt buf offset = None) =
      (\<forall>i. i < 5 \<and> nat offset + i < length buf \<longrightarrow> buf ! (nat offset + i) AND 0x80 \<noteq> 0)"
    using readVarInt_loop_None_iff [of offset 0 buf 0] by (simp add: readVarInt_def)
next
  assume a: "0 \<le> offset \<and> (\<forall>i. nat offset \<le> i \<and> i < length buf \<longrightarrow> buf ! i AND 0x80 \<noteq> 0)"
  then have "\<forall>i. i < 5 \<and> nat offset + i < length buf \<longrightarrow> buf ! (nat offset + i) AND 0x80 \<noteq> 0"
    by simp
  then show "readVarInt buf offset = None"
    using a readVarInt_loop_None_iff [of offset 0 buf 0] by (simp add: readVarInt_def)
next
  assume a: "0 \<le> offset \<and> nat offset + 5 \<le> length buf
        \<and> (\<forall>i. i < 5 \<longrightarrow> buf ! (nat offset + i) AND 0x80 \<noteq> 0)"
  then show "readVarInt buf offset = None"
    using readVarInt_loop_None_iff [of offset 0 buf 0] by (simp add: readVarInt_def)
next
  assume "offset < 0"
  then show "readVarInt buf offset = Some \<lparr>value_vi = 0, size_vi = 1\<rparr>"
    by (rule readVarInt_negative_offset)
next
  fix r
  assume "readVarInt buf offset = Some r"
  then show "1 \<le> size_vi r" "size_vi r \<le> 5" "- (2 ^ 31) \<le> value_vi r" "value_vi r < 2 ^ 31"
    using readVarInt_loop_size [of buf offset 0 0 r] readVarInt_loop_val [of buf offset 0 0 r]
    by (simp_all add: readVarInt_def)
qed

theorem readVarInt_total_witness:
  "readVarInt [0x80, 0x80] 0 = None
   \<and> readVarInt [0x05] (- 1) = Some \<lparr>value_vi = 0, size_vi = 1\<rparr>"
proof -
  have h: "(0::int) \<le> 0 \<and> (\<forall>i. nat 0 \<le> i \<and> i < length [0x80, 0x80 :: byte]
             \<longrightarrow> [0x80, 0x80 :: byte] ! i AND 0x80 \<noteq> 0)"
    by (auto simp: nth_Cons' less_2_cases_iff)
  have n: "(- 1 :: int) < 0" by simp
  show ?thesis
    using readVarInt_total [of 0 "[0x80, 0x80]"] readVarInt_total [of "- 1" "[0x05]"] h n
    by blast
qed

section \<open>Properties of the router and of \<open>runCheck\<close>\<close>

lemma js_bind_simps [simp]:
  "js_bind (Inl e) f = Inl e"
  "js_bind (Inr x) f = f x"
  by (simp_all add: js_bind_def)

lemma get_prop_nullish [simp]:
  "get_prop JNull k = Inl TypeError"
  "get_prop JUndefined k = Inl TypeError"
  by (simp_all add: get_prop_def nullish_def)

lemma get_prop_ok: "\<not> nullish server \<Longrightarrow> get_prop server k = Inr (read_prop server k)"
  by (simp add: get_prop_def)

lemma Number_js_throws: "ToPrimitive_throws v \<Longrightarrow> Number_js conv v = Inl TypeError"
  by (cases v) simp_all

lemma Number_js_ok: "\<not> ToPrimitive_throws v \<Longrightarrow> \<exists>n. Number_js conv v = Inr n"
  by (cases v) simp_all

lemma Number_js_Inl: "Number_js conv v = Inl e \<Longrightarrow> ToPrimitive_throws v \<and> e = TypeError"
  by (cases v) (simp_all split: if_splits)

lemma pickHostPort_ok:
  "\<not> nullish server \<Longrightarrow>
   pickHostPort conv server =
     js_bind (if read_prop server ''port'' \<noteq> JUndefined
              then js_bind (Number_js conv (read_prop server ''port'')) (\<lambda>n. Inr (JNum n))
              else Inr JUndefined)
       (\<lambda>port.
          Inr (if truthy (read_prop server ''ip'') then read_prop server ''ip''
               else if truthy (read_prop server ''host'') then read_prop server ''host''
               else if truthy (read_prop server ''port'') then JStr ''127.0.0.1'' else JUndefined,
               port))"
  by (simp add: pickHostPort_def get_prop_ok Let_def)

lemma pickHostPort_throws:
  "\<not> nullish server \<Longrightarrow> ToPrimitive_throws (read_prop server ''port'') \<Longrightarrow>
   pickHostPort conv server = Inl TypeError"
  by (auto simp: pickHostPort_ok Number_js_throws)

lemma pickHostPort_Inr:
  assumes "\<not> nullish server" and "\<not> ToPrimitive_throws (read_prop server ''port'')"
  shows "\<exists>n. Number_js conv (read_prop server ''port'') = Inr n
           \<and> pickHostPort conv server =
               Inr (if truthy (read_prop server ''ip'') then read_prop server ''ip''
                    else if truthy (read_prop server ''host'') then read_prop server ''host''
                    else if truthy (read_prop server ''port'') then JStr ''127.0.0.1'' else JUndefined,
                    if read_prop server ''port'' \<noteq> JUndefined then JNum n else JUndefined)"
proof -
  obtain n where "Number_js conv (read_prop server ''port'') = Inr n"
    using Number_js_ok [OF assms(2)] by blast
  then show ?thesis using assms(1) by (simp add: pickHostPort_ok)
qed

lemma pickHostPort_nullish: "nullish server \<Longrightarrow> pickHostPort conv server = Inl TypeError"
  by (auto simp: pickHostPort_def nullish_def)

lemma usableHostPort_iff:
  "usableHostPort h p = (truthy h \<and> (\<exists>r. p = JNum (Finite r) \<and> 0 < r))"
  by (cases p rule: Number_isFinite.cases) (auto simp: usableHostPort_def)

text \<open>
  C7, as amended. \<open>chooseChecker\<close> is a pure function. It throws a TypeError on \<open>null\<close> and
  \<open>undefined\<close>, where the read of \<open>server.url\<close> throws, and, when \<open>url\<close> is not a string
  that starts with \<open>http\<close>, on a \<open>port\<close> that cannot be converted to a primitive (an object
  with an own \<open>toString\<close> property, or an array holding one), where \<open>Number(server.port)\<close>
  throws. On every other descriptor (an object, or a number, string, boolean or array,
  whatever its fields hold) it returns one of the three outcomes without throwing, in strict
  precedence: a string \<open>url\<close> that starts with \<open>http\<close> selects the HTTP checker; otherwise
  a truthy host (\<open>ip\<close>, else \<open>host\<close>, else loopback when \<open>port\<close> is truthy) together with
  a port whose number is finite and positive selects the TCP checker; otherwise no checker.
\<close>

theorem chooseChecker_total:
  "chooseChecker conv server =
     (if server = JNull \<or> server = JUndefined then Inl TypeError
      else if isHttpUrl (read_prop server ''url'') then Inr Http
      else if ToPrimitive_throws (read_prop server ''port'') then Inl TypeError
      else if (truthy (read_prop server ''ip'') \<or> truthy (read_prop server ''host'')
               \<or> truthy (read_prop server ''port''))
              \<and> read_prop server ''port'' \<noteq> JUndefined
              \<and> (\<exists>r. Number_js conv (read_prop server ''port'') = Inr (Finite r) \<and> 0 < r)
      then Inr Tcp
      else Inr NoChecker)"
proof (cases "nullish server")
  case True
  then show ?thesis by (auto simp: chooseChecker_def nullish_def)
next
  case ok: False
  show ?thesis
  proof (cases "isHttpUrl (read_prop server ''url'')")
    case True
    then show ?thesis using ok by (simp add: chooseChecker_def get_prop_ok nullish_def)
  next
    case nourl: False
    show ?thesis
    proof (cases "ToPrimitive_throws (read_prop server ''port'')")
      case True
      then show ?thesis
        using ok nourl by (simp add: chooseChecker_def get_prop_ok pickHostPort_throws nullish_def)
    next
      case False
      from pickHostPort_Inr [OF ok False, of conv] obtain n where
        n: "Number_js conv (read_prop server ''port'') = Inr n"
        and p: "pickHostPort conv server =
               Inr (if truthy (read_prop server ''ip'') then read_prop server ''ip''
                    else if truthy (read_prop server ''host'') then read_prop server ''host''
                    else if truthy (read_prop server ''port'') then JStr ''127.0.0.1'' else JUndefined,
                    if read_prop server ''port'' \<noteq> JUndefined then JNum n else JUndefined)"
        by blast
      show ?thesis
        using ok nourl False n
        by (auto simp: chooseChecker_def get_prop_ok p nullish_def usableHostPort_iff)
    qed
  qed
qed

theorem chooseChecker_total_witness:
  "chooseChecker unconvertible (JObj [(''port'', JNum (Finite 8080))]) = Inr Tcp
   \<and> chooseChecker unconvertible (JNum (Finite 5)) = Inr NoChecker
   \<and> chooseChecker unconvertible (JObj [(''url'', JStr ''https://example.org''), (''port'', JNum (Finite 8080))]) = Inr Http
   \<and> chooseChecker unconvertible
        (JObj [(''url'', JStr ''https://example.org''), (''port'', JObj [(''toString'', JNum (Finite 1))])]) = Inr Http
   \<and> chooseChecker unconvertible (JObj [(''host'', JStr ''h''), (''port'', JObj [(''valueOf'', JNum (Finite 1))])])
       = Inr NoChecker"
  using chooseChecker_total [of unconvertible "JObj [(''port'', JNum (Finite 8080))]"]
    chooseChecker_total [of unconvertible "JNum (Finite 5)"]
    chooseChecker_total [of unconvertible "JObj [(''url'', JStr ''https://example.org''), (''port'', JNum (Finite 8080))]"]
    chooseChecker_total [of unconvertible
      "JObj [(''url'', JStr ''https://example.org''), (''port'', JObj [(''toString'', JNum (Finite 1))])]"]
    chooseChecker_total [of unconvertible "JObj [(''host'', JStr ''h''), (''port'', JObj [(''valueOf'', JNum (Finite 1))])]"]
  by (simp add: isHttpUrl_def startsWith_def)

text \<open>
  The claim as stated includes \<open>null\<close> and fields that are not strings: on \<open>null\<close> and
  \<open>undefined\<close> the read of \<open>server.url\<close> throws a TypeError, and on a descriptor whose
  \<open>port\<close> is the object \<open>{"toString": 1}\<close>, or an array holding it, \<open>Number(server.port)\<close>
  throws a TypeError.
\<close>

theorem chooseChecker_null_counterexample:
  "chooseChecker unconvertible JNull = Inl TypeError
   \<and> chooseChecker unconvertible JUndefined = Inl TypeError
   \<and> chooseChecker unconvertible
        (JObj [(''host'', JStr ''h''), (''port'', JObj [(''toString'', JNum (Finite 1))])]) = Inl TypeError
   \<and> chooseChecker unconvertible
        (JObj [(''host'', JStr ''h''), (''port'', JArr [JObj [(''toString'', JNum (Finite 1))]])]) = Inl TypeError"
  by (simp add: chooseChecker_def pickHostPort_def get_prop_def nullish_def isHttpUrl_def)

lemma shouldSkipPoll_wildcard:
  "(if truthy (read_prop server ''ip'') then read_prop server ''ip''
    else read_prop server ''host'') = JStr ''0.0.0.0'' \<Longrightarrow>
   shouldSkipPoll conv server = Inr True"
proof -
  assume a: "(if truthy (read_prop server ''ip'') then read_prop server ''ip''
              else read_prop server ''host'') = JStr ''0.0.0.0''"
  then have "\<not> nullish server" by (auto simp: nullish_def split: if_splits)
  then show ?thesis using a by (simp add: shouldSkipPoll_def get_prop_ok Let_def)
qed

lemma shouldSkipPoll_ok:
  "\<not> nullish server \<Longrightarrow>
   (if truthy (read_prop server ''ip'') then read_prop server ''ip''
    else read_prop server ''host'') \<noteq> JStr ''0.0.0.0'' \<Longrightarrow>
   shouldSkipPoll conv server =
     js_bind (pickHostPort conv server)
       (\<lambda>(h, p). Inr (\<not> (isHttpUrl (read_prop server ''url'') \<or> usableHostPort h p)))"
  by (simp add: shouldSkipPoll_def get_prop_ok Let_def)

lemma shouldSkipPoll_unaddressable:
  assumes "pickHostPort conv server = Inr (h, p)"
    and "\<not> isHttpUrl (read_prop server ''url'')" and "\<not> usableHostPort h p"
  shows "shouldSkipPoll conv server = Inr True"
proof -
  have ok: "\<not> nullish server" using assms(1) pickHostPort_nullish [of server conv] by auto
  show ?thesis
  proof (cases "(if truthy (read_prop server ''ip'') then read_prop server ''ip''
                 else read_prop server ''host'') = JStr ''0.0.0.0''")
    case True
    then show ?thesis by (rule shouldSkipPoll_wildcard)
  next
    case False
    then show ?thesis using ok assms by (simp add: shouldSkipPoll_ok)
  qed
qed

lemma isEnabled_nullish: "nullish server \<Longrightarrow> isEnabled server"
  by (simp add: isEnabled_def opt_prop_def)

lemma runCheck_nullish: "nullish server \<Longrightarrow> runCheck env server = (Inl TypeError, [])"
  by (auto simp: runCheck_def nullish_def)

lemma runCheck_throws:
  "\<not> nullish server \<Longrightarrow> ToPrimitive_throws (read_prop server ''timeoutMs'') \<Longrightarrow>
   runCheck env server = (Inl TypeError, [])"
  by (simp add: runCheck_def get_prop_ok Number_js_throws)

lemma runCheck_disabled:
  assumes "\<not> isEnabled server" and "\<not> ToPrimitive_throws (read_prop server ''timeoutMs'')"
  shows "runCheck env server = (Inr (JObj [(''online'', JBool False), (''disabled'', JBool True)]), [])"
proof -
  have ok: "\<not> nullish server" using assms(1) isEnabled_nullish by blast
  obtain n where "Number_js (rt_conv env) (read_prop server ''timeoutMs'') = Inr n"
    using Number_js_ok [OF assms(2)] by blast
  then show ?thesis using ok assms(1) by (simp add: runCheck_def get_prop_ok Let_def)
qed

lemma runCheck_skipped:
  assumes "isEnabled server" and "shouldSkipPoll (rt_conv env) server = Inr True"
    and "\<not> ToPrimitive_throws (read_prop server ''timeoutMs'')"
  shows "runCheck env server = (Inr (JObj [(''online'', JBool False), (''skipped'', JBool True)]), [])"
proof -
  have ok: "\<not> nullish server"
    using assms(2) by (auto simp: shouldSkipPoll_def nullish_def)
  obtain n where "Number_js (rt_conv env) (read_prop server ''timeoutMs'') = Inr n"
    using Number_js_ok [OF assms(3)] by blast
  then show ?thesis using ok assms(1,2) by (simp add: runCheck_def get_prop_ok Let_def)
qed

lemma runCheck_no_io_disabled: "\<not> isEnabled server \<Longrightarrow> snd (runCheck env server) = []"
proof -
  assume d: "\<not> isEnabled server"
  then have ok: "\<not> nullish server" using isEnabled_nullish by blast
  show ?thesis
  proof (cases "ToPrimitive_throws (read_prop server ''timeoutMs'')")
    case True
    then show ?thesis using ok by (simp add: runCheck_throws)
  next
    case False
    then show ?thesis using d by (simp add: runCheck_disabled)
  qed
qed

lemma runCheck_no_io_skipped:
  "shouldSkipPoll (rt_conv env) server = Inr True \<Longrightarrow> snd (runCheck env server) = []"
proof -
  assume s: "shouldSkipPoll (rt_conv env) server = Inr True"
  then have ok: "\<not> nullish server" by (auto simp: shouldSkipPoll_def nullish_def)
  show ?thesis
  proof (cases "isEnabled server")
    case False
    then show ?thesis by (rule runCheck_no_io_disabled)
  next
    case True
    show ?thesis
    proof (cases "ToPrimitive_throws (read_prop server ''timeoutMs'')")
      case t: True
      then show ?thesis using ok by (simp add: runCheck_throws)
    next
      case False
      then show ?thesis using True s by (simp add: runCheck_skipped)
    qed
  qed
qed

text \<open>
  C8, as amended. Let \<open>Number(server.timeoutMs)\<close> not throw, that is let \<open>timeoutMs\<close> be
  neither an object with an own \<open>toString\<close> property nor an array holding one. Then
  \<open>runCheck\<close> returns \<open>{online: false, disabled: true}\<close> for every disabled target, and
  \<open>{online: false, skipped: true}\<close> for every enabled target whose host (\<open>ip\<close>, else
  \<open>host\<close>) is \<open>"0.0.0.0"\<close> or for which \<open>pickHostPort\<close> returns (so \<open>Number(server.port)\<close>
  does not throw either) and that has neither a usable URL nor a usable host and port. When
  \<open>Number(server.timeoutMs)\<close> throws, \<open>runCheck\<close> rejects with the TypeError, whether the
  target is disabled, bound to the wildcard address or unaddressable. In all these cases the
  log of network calls is empty. A target is a descriptor read from the configuration, not
  \<open>null\<close> or \<open>undefined\<close>: \<open>main\<close> reads \<open>server.id\<close> before it calls \<open>runCheck\<close>.
\<close>

theorem runCheck_short_circuits:
  "(\<not> ToPrimitive_throws (read_prop server ''timeoutMs'') \<and> \<not> isEnabled server \<longrightarrow>
      runCheck env server = (Inr (JObj [(''online'', JBool False), (''disabled'', JBool True)]), []))
   \<and> (\<not> ToPrimitive_throws (read_prop server ''timeoutMs'') \<and> isEnabled server
        \<and> (if truthy (read_prop server ''ip'') then read_prop server ''ip''
            else read_prop server ''host'') = JStr ''0.0.0.0'' \<longrightarrow>
      runCheck env server = (Inr (JObj [(''online'', JBool False), (''skipped'', JBool True)]), []))
   \<and> (\<not> ToPrimitive_throws (read_prop server ''timeoutMs'') \<and> isEnabled server
        \<and> pickHostPort (rt_conv env) server = Inr (h, p)
        \<and> \<not> isHttpUrl (read_prop server ''url'') \<and> \<not> usableHostPort h p \<longrightarrow>
      runCheck env server = (Inr (JObj [(''online'', JBool False), (''skipped'', JBool True)]), []))
   \<and> (ToPrimitive_throws (read_prop server ''timeoutMs'') \<and> server \<noteq> JNull \<and> server \<noteq> JUndefined \<longrightarrow>
      runCheck env server = (Inl TypeError, []))
   \<and> (\<not> isEnabled server
        \<or> (if truthy (read_prop server ''ip'') then read_prop server ''ip''
            else read_prop server ''host'') = JStr ''0.0.0.0''
        \<or> (pickHostPort (rt_conv env) server = Inr (h, p)
            \<and> \<not> isHttpUrl (read_prop server ''url'') \<and> \<not> usableHostPort h p) \<longrightarrow>
      snd (runCheck env server) = [])"
proof (intro conjI impI)
  assume "\<not> ToPrimitive_throws (read_prop server ''timeoutMs'') \<and> \<not> isEnabled server"
  then show "runCheck env server = (Inr (JObj [(''online'', JBool False), (''disabled'', JBool True)]), [])"
    by (simp add: runCheck_disabled)
next
  assume a: "\<not> ToPrimitive_throws (read_prop server ''timeoutMs'') \<and> isEnabled server
        \<and> (if truthy (read_prop server ''ip'') then read_prop server ''ip''
            else read_prop server ''host'') = JStr ''0.0.0.0''"
  then have "shouldSkipPoll (rt_conv env) server = Inr True"
    using shouldSkipPoll_wildcard [of server "rt_conv env"] by blast
  then show "runCheck env server = (Inr (JObj [(''online'', JBool False), (''skipped'', JBool True)]), [])"
    using a by (simp add: runCheck_skipped)
next
  assume a: "\<not> ToPrimitive_throws (read_prop server ''timeoutMs'') \<and> isEnabled server
        \<and> pickHostPort (rt_conv env) server = Inr (h, p)
        \<and> \<not> isHttpUrl (read_prop server ''url'') \<and> \<not> usableHostPort h p"
  then have "shouldSkipPoll (rt_conv env) server = Inr True"
    using shouldSkipPoll_unaddressable [of "rt_conv env" server h p] by blast
  then show "runCheck env server = (Inr (JObj [(''online'', JBool False), (''skipped'', JBool True)]), [])"
    using a by (simp add: runCheck_skipped)
next
  assume "ToPrimitive_throws (read_prop server ''timeoutMs'') \<and> server \<noteq> JNull \<and> server \<noteq> JUndefined"
  then show "runCheck env server = (Inl TypeError, [])"
    by (simp add: runCheck_throws nullish_def)
next
  assume a: "\<not> isEnabled server
        \<or> (if truthy (read_prop server ''ip'') then read_prop server ''ip''
            else read_prop server ''host'') = JStr ''0.0.0.0''
        \<or> (pickHostPort (rt_conv env) server = Inr (h, p)
            \<and> \<not> isHttpUrl (read_prop server ''url'') \<and> \<not> usableHostPort h p)"
  then consider (d) "\<not> isEnabled server" | (s) "shouldSkipPoll (rt_conv env) server = Inr True"
    using shouldSkipPoll_wildcard [of server "rt_conv env"]
      shouldSkipPoll_unaddressable [of "rt_conv env" server h p] by blast
  then show "snd (runCheck env server) = []"
    by cases (simp_all add: runCheck_no_io_disabled runCheck_no_io_skipped)
qed

theorem runCheck_short_circuits_witness:
  "runCheck (sample_env [] []) (JObj [(''id'', JStr ''a''), (''url'', JStr ''http://a''), (''enabled'', JStr ''False'')])
     = (Inr (JObj [(''online'', JBool False), (''disabled'', JBool True)]), [])
   \<and> runCheck (sample_env [] []) (JObj [(''id'', JStr ''b''), (''host'', JStr ''0.0.0.0''), (''port'', JNum (Finite 25565))])
     = (Inr (JObj [(''online'', JBool False), (''skipped'', JBool True)]), [])
   \<and> runCheck (sample_env [] []) (JObj [(''id'', JStr ''c''), (''host'', JStr ''10.0.0.1'')])
     = (Inr (JObj [(''online'', JBool False), (''skipped'', JBool True)]), [])
   \<and> runCheck (sample_env [] [])
        (JObj [(''id'', JStr ''d''), (''url'', JStr ''http://d''), (''timeoutMs'', JArr [JObj [(''toString'', JNull)]])])
     = (Inl TypeError, [])
   \<and> snd (runCheck (sample_env [] [])
        (JObj [(''id'', JStr ''e''), (''host'', JStr ''0.0.0.0''), (''timeoutMs'', JObj [(''toString'', JNull)])])) = []"
proof -
  have d: "\<not> ToPrimitive_throws (read_prop (JObj [(''id'', JStr ''a''), (''url'', JStr ''http://a''), (''enabled'', JStr ''False'')]) ''timeoutMs'')
        \<and> \<not> isEnabled (JObj [(''id'', JStr ''a''), (''url'', JStr ''http://a''), (''enabled'', JStr ''False'')])"
    by code_simp
  have z: "\<not> ToPrimitive_throws (read_prop (JObj [(''id'', JStr ''b''), (''host'', JStr ''0.0.0.0''), (''port'', JNum (Finite 25565))]) ''timeoutMs'')
        \<and> isEnabled (JObj [(''id'', JStr ''b''), (''host'', JStr ''0.0.0.0''), (''port'', JNum (Finite 25565))])
        \<and> (if truthy (read_prop (JObj [(''id'', JStr ''b''), (''host'', JStr ''0.0.0.0''), (''port'', JNum (Finite 25565))]) ''ip'')
            then read_prop (JObj [(''id'', JStr ''b''), (''host'', JStr ''0.0.0.0''), (''port'', JNum (Finite 25565))]) ''ip''
            else read_prop (JObj [(''id'', JStr ''b''), (''host'', JStr ''0.0.0.0''), (''port'', JNum (Finite 25565))]) ''host'')
            = JStr ''0.0.0.0''"
    by (simp add: isEnabled_def opt_prop_def nullish_def)
  have n: "\<not> ToPrimitive_throws (read_prop (JObj [(''id'', JStr ''c''), (''host'', JStr ''10.0.0.1'')]) ''timeoutMs'')
        \<and> isEnabled (JObj [(''id'', JStr ''c''), (''host'', JStr ''10.0.0.1'')])
        \<and> pickHostPort (rt_conv (sample_env [] [])) (JObj [(''id'', JStr ''c''), (''host'', JStr ''10.0.0.1'')])
            = Inr (JStr ''10.0.0.1'', JUndefined)
        \<and> \<not> isHttpUrl (read_prop (JObj [(''id'', JStr ''c''), (''host'', JStr ''10.0.0.1'')]) ''url'')
        \<and> \<not> usableHostPort (JStr ''10.0.0.1'') JUndefined"
    by (simp add: isEnabled_def opt_prop_def nullish_def isHttpUrl_def usableHostPort_def
        pickHostPort_def get_prop_def)
  have t: "ToPrimitive_throws (read_prop
             (JObj [(''id'', JStr ''d''), (''url'', JStr ''http://d''), (''timeoutMs'', JArr [JObj [(''toString'', JNull)]])])
             ''timeoutMs'')
        \<and> JObj [(''id'', JStr ''d''), (''url'', JStr ''http://d''), (''timeoutMs'', JArr [JObj [(''toString'', JNull)]])] \<noteq> JNull
        \<and> JObj [(''id'', JStr ''d''), (''url'', JStr ''http://d''), (''timeoutMs'', JArr [JObj [(''toString'', JNull)]])] \<noteq> JUndefined"
    by simp
  have e: "(if truthy (read_prop (JObj [(''id'', JStr ''e''), (''host'', JStr ''0.0.0.0''), (''timeoutMs'', JObj [(''toString'', JNull)])]) ''ip'')
            then read_prop (JObj [(''id'', JStr ''e''), (''host'', JStr ''0.0.0.0''), (''timeoutMs'', JObj [(''toString'', JNull)])]) ''ip''
            else read_prop (JObj [(''id'', JStr ''e''), (''host'', JStr ''0.0.0.0''), (''timeoutMs'', JObj [(''toString'', JNull)])]) ''host'')
            = JStr ''0.0.0.0''"
    by simp
  have 1: "runCheck (sample_env [] []) (JObj [(''id'', JStr ''a''), (''url'', JStr ''http://a''), (''enabled'', JStr ''False'')])
     = (Inr (JObj [(''online'', JBool False), (''disabled'', JBool True)]), [])"
    by (rule runCheck_short_circuits [of _ _ JUndefined JUndefined, THEN conjunct1, THEN mp, OF d])
  have 2: "runCheck (sample_env [] []) (JObj [(''id'', JStr ''b''), (''host'', JStr ''0.0.0.0''), (''port'', JNum (Finite 25565))])
     = (Inr (JObj [(''online'', JBool False), (''skipped'', JBool True)]), [])"
    by (rule runCheck_short_circuits [of _ _ JUndefined JUndefined,
          THEN conjunct2, THEN conjunct1, THEN mp, OF z])
  have 3: "runCheck (sample_env [] []) (JObj [(''id'', JStr ''c''), (''host'', JStr ''10.0.0.1'')])
     = (Inr (JObj [(''online'', JBool False), (''skipped'', JBool True)]), [])"
    by (rule runCheck_short_circuits [THEN conjunct2, THEN conjunct2, THEN conjunct1, THEN mp, OF n])
  have 4: "runCheck (sample_env [] [])
        (JObj [(''id'', JStr ''d''), (''url'', JStr ''http://d''), (''timeoutMs'', JArr [JObj [(''toString'', JNull)]])])
     = (Inl TypeError, [])"
    by (rule runCheck_short_circuits [of _ _ JUndefined JUndefined,
          THEN conjunct2, THEN conjunct2, THEN conjunct2, THEN conjunct1, THEN mp, OF t])
  have 5: "snd (runCheck (sample_env [] [])
        (JObj [(''id'', JStr ''e''), (''host'', JStr ''0.0.0.0''), (''timeoutMs'', JObj [(''toString'', JNull)])])) = []"
    by (rule runCheck_short_circuits [of _ _ JUndefined JUndefined,
          THEN conjunct2, THEN conjunct2, THEN conjunct2, THEN conjunct2, THEN mp,
          OF disjI2 [OF disjI1 [OF e]]])
  show ?thesis using 1 2 3 4 5 by (intro conjI)
qed

text \<open>
  The claim as stated covers every disabled target and every target bound to the wildcard
  address. The time limit is converted before these tests are made: for the disabled target
  \<open>{"id": "a", "enabled": false, "timeoutMs": {"toString": 1}}\<close> and for the enabled target
  \<open>{"id": "b", "host": "0.0.0.0", "port": 25565, "timeoutMs": {"toString": 1}}\<close> the call
  \<open>Number(server.timeoutMs)\<close> throws a TypeError and \<open>runCheck\<close> rejects with it, returning
  neither \<open>{online: false, disabled: true}\<close> nor \<open>{online: false, skipped: true}\<close>.
\<close>

theorem runCheck_timeout_counterexample:
  "\<not> isEnabled (JObj [(''id'', JStr ''a''), (''enabled'', JBool False),
                      (''timeoutMs'', JObj [(''toString'', JNum (Finite 1))])])
   \<and> runCheck (sample_env [] [])
        (JObj [(''id'', JStr ''a''), (''enabled'', JBool False),
               (''timeoutMs'', JObj [(''toString'', JNum (Finite 1))])])
       = (Inl TypeError, [])
   \<and> isEnabled (JObj [(''id'', JStr ''b''), (''host'', JStr ''0.0.0.0''), (''port'', JNum (Finite 25565)),
                      (''timeoutMs'', JObj [(''toString'', JNum (Finite 1))])])
   \<and> read_prop (JObj [(''id'', JStr ''b''), (''host'', JStr ''0.0.0.0''), (''port'', JNum (Finite 25565)),
                      (''timeoutMs'', JObj [(''toString'', JNum (Finite 1))])]) ''host'' = JStr ''0.0.0.0''
   \<and> runCheck (sample_env [] [])
        (JObj [(''id'', JStr ''b''), (''host'', JStr ''0.0.0.0''), (''port'', JNum (Finite 25565)),
               (''timeoutMs'', JObj [(''toString'', JNum (Finite 1))])])
       = (Inl TypeError, [])"
  by (simp add: runCheck_def get_prop_def nullish_def isEnabled_def opt_prop_def)

section \<open>Properties of the pool\<close>

lemma pool_inv_start: "pool_inv items mapper limit (pool_start items limit)"
  by (auto simp: pool_inv_def pool_start_def)

lemma set_update_cases:
  "x \<in> set (xs[w := y]) \<Longrightarrow> x = y \<or> x \<in> set xs"
  by (metis in_set_conv_nth length_list_update nth_list_update_eq nth_list_update_neq)

lemma in_set_update_other:
  "w < length xs \<Longrightarrow> x \<in> set xs \<Longrightarrow> x \<noteq> xs ! w \<Longrightarrow> x \<in> set (xs[w := y])"
  by (metis in_set_conv_nth length_list_update nth_list_update_neq)

lemma pool_invI:
  "length (results s) = length items \<Longrightarrow>
   length (workers s) = min limit (length items) \<Longrightarrow>
   (\<And>idx. idx < length items \<Longrightarrow>
      results s ! idx = Hole \<or> results s ! idx = settle (mapper (items ! idx) idx)) \<Longrightarrow>
   (\<And>idx. idx < length items \<Longrightarrow> idx < cursor_i s \<Longrightarrow>
      Awaiting idx \<in> set (workers s) \<or> results s ! idx = settle (mapper (items ! idx) idx)) \<Longrightarrow>
   (\<And>idx. Awaiting idx \<in> set (workers s) \<Longrightarrow> idx < length items) \<Longrightarrow>
   (Finished \<in> set (workers s) \<Longrightarrow> length items \<le> cursor_i s) \<Longrightarrow>
   pool_inv items mapper limit s"
  by (simp add: pool_inv_def)

lemma pool_inv_step:
  assumes inv: "pool_inv items mapper limit s"
    and st: "worker_step items mapper w s = Some s'"
  shows "pool_inv items mapper limit s'"
proof -
  from st have w: "w < length (workers s)"
    by (auto simp: worker_step_def split: if_splits)
  have len: "length (results s) = length items"
    and lenw: "length (workers s) = min limit (length items)"
    and i3: "\<And>idx. idx < length items \<Longrightarrow>
      results s ! idx = Hole \<or> results s ! idx = settle (mapper (items ! idx) idx)"
    and i4: "\<And>idx. idx < length items \<Longrightarrow> idx < cursor_i s \<Longrightarrow>
      Awaiting idx \<in> set (workers s) \<or> results s ! idx = settle (mapper (items ! idx) idx)"
    and i5: "\<And>idx. Awaiting idx \<in> set (workers s) \<Longrightarrow> idx < length items"
    and i6: "Finished \<in> set (workers s) \<Longrightarrow> length items \<le> cursor_i s"
    using inv by (simp_all add: pool_inv_def)
  show ?thesis
  proof (cases "workers s ! w")
    case Finished
    then show ?thesis using st w by (simp add: worker_step_def)
  next
    case Ready
    show ?thesis
    proof (cases "length items \<le> cursor_i s")
      case True
      then have s': "s' = s\<lparr>cursor_i := cursor_i s + 1, workers := (workers s)[w := Finished]\<rparr>"
        using st w Ready by (auto simp: worker_step_def Let_def)
      have a: "Awaiting idx \<in> set ((workers s)[w := Finished]) \<Longrightarrow> Awaiting idx \<in> set (workers s)" for idx
        by (drule set_update_cases) simp
      have b: "Awaiting idx \<in> set (workers s) \<Longrightarrow> Awaiting idx \<in> set ((workers s)[w := Finished])" for idx
        using w Ready by (intro in_set_update_other) auto
      show ?thesis
      proof (rule pool_invI)
        show "length (results s') = length items" by (simp add: s' len)
        show "length (workers s') = min limit (length items)" by (simp add: s' lenw)
        show "results s' ! idx = Hole \<or> results s' ! idx = settle (mapper (items ! idx) idx)"
          if "idx < length items" for idx using that i3 by (simp add: s')
        show "Awaiting idx \<in> set (workers s') \<or> results s' ! idx = settle (mapper (items ! idx) idx)"
          if "idx < length items" "idx < cursor_i s'" for idx
          using that i4 [of idx] b [of idx] True by (auto simp: s')
        show "idx < length items" if "Awaiting idx \<in> set (workers s')" for idx
          using that a [of idx] i5 by (simp add: s')
        show "length items \<le> cursor_i s'" if "Finished \<in> set (workers s')"
          using True by (simp add: s')
      qed
    next
      case False
      then have s': "s' = s\<lparr>cursor_i := cursor_i s + 1, workers := (workers s)[w := Awaiting (cursor_i s)]\<rparr>"
        using st w Ready by (auto simp: worker_step_def Let_def)
      have a: "Awaiting idx \<in> set ((workers s)[w := Awaiting (cursor_i s)]) \<Longrightarrow>
               idx = cursor_i s \<or> Awaiting idx \<in> set (workers s)" for idx
        by (drule set_update_cases) auto
      have b: "Awaiting idx \<in> set (workers s) \<Longrightarrow> Awaiting idx \<in> set ((workers s)[w := Awaiting (cursor_i s)])" for idx
        using w Ready by (intro in_set_update_other) auto
      have c: "Awaiting (cursor_i s) \<in> set ((workers s)[w := Awaiting (cursor_i s)])"
        using w by (simp add: set_update_memI)
      have d: "Finished \<in> set ((workers s)[w := Awaiting (cursor_i s)]) \<Longrightarrow> Finished \<in> set (workers s)"
        by (drule set_update_cases) auto
      show ?thesis
      proof (rule pool_invI)
        show "length (results s') = length items" by (simp add: s' len)
        show "length (workers s') = min limit (length items)" by (simp add: s' lenw)
        show "results s' ! idx = Hole \<or> results s' ! idx = settle (mapper (items ! idx) idx)"
          if "idx < length items" for idx using that i3 by (simp add: s')
        show "Awaiting idx \<in> set (workers s') \<or> results s' ! idx = settle (mapper (items ! idx) idx)"
          if "idx < length items" "idx < cursor_i s'" for idx
        proof (cases "idx = cursor_i s")
          case True
          then show ?thesis using c by (simp add: s')
        next
          case False
          then have "idx < cursor_i s" using that by (simp add: s')
          then show ?thesis using i4 [of idx] b [of idx] that by (auto simp: s')
        qed
        show "idx < length items" if "Awaiting idx \<in> set (workers s')" for idx
          using that a [of idx] i5 [of idx] False by (auto simp: s')
        show "length items \<le> cursor_i s'" if "Finished \<in> set (workers s')"
          using that d i6 by (auto simp: s')
      qed
    qed
  next
    case (Awaiting idx)
    then have s': "s' = s\<lparr>results := (results s)[idx := settle (mapper (items ! idx) idx)],
                          workers := (workers s)[w := Ready]\<rparr>"
      using st w by (simp add: worker_step_def)
    have idx: "idx < length items"
      using i5 [of idx] Awaiting w by (metis nth_mem)
    have a: "Awaiting j \<in> set ((workers s)[w := Ready]) \<Longrightarrow> Awaiting j \<in> set (workers s)" for j
      by (drule set_update_cases) auto
    have b: "Awaiting j \<in> set (workers s) \<Longrightarrow> j \<noteq> idx \<Longrightarrow> Awaiting j \<in> set ((workers s)[w := Ready])" for j
      using w Awaiting by (intro in_set_update_other) auto
    have d: "Finished \<in> set ((workers s)[w := Ready]) \<Longrightarrow> Finished \<in> set (workers s)"
      by (drule set_update_cases) auto
    show ?thesis
    proof (rule pool_invI)
      show "length (results s') = length items" by (simp add: s' len)
      show "length (workers s') = min limit (length items)" by (simp add: s' lenw)
      show "results s' ! j = Hole \<or> results s' ! j = settle (mapper (items ! j) j)"
        if "j < length items" for j
        using that i3 [of j] len by (cases "j = idx") (auto simp: s')
      show "Awaiting j \<in> set (workers s') \<or> results s' ! j = settle (mapper (items ! j) j)"
        if "j < length items" "j < cursor_i s'" for j
        using that i4 [of j] b [of j] len by (cases "j = idx") (auto simp: s')
      show "j < length items" if "Awaiting j \<in> set (workers s')" for j
        using that a [of j] i5 [of j] by (auto simp: s')
      show "length items \<le> cursor_i s'" if "Finished \<in> set (workers s')"
        using that d i6 by (auto simp: s')
    qed
  qed
qed

lemma pool_inv_run:
  "pool_inv items mapper limit s \<Longrightarrow> run_schedule items mapper schedule s = Some s' \<Longrightarrow>
   pool_inv items mapper limit s'"
proof (induction schedule arbitrary: s)
  case Nil
  then show ?case by simp
next
  case (Cons w ws)
  then show ?case
    by (auto split: option.splits dest: pool_inv_step)
qed

lemma pool_inv_final:
  assumes inv: "pool_inv items mapper limit s" and fin: "all_finished s" and lim: "1 \<le> limit"
  shows "results s = map (\<lambda>idx. settle (mapper (items ! idx) idx)) [0..<length items]"
proof (rule nth_equalityI)
  show "length (results s) = length (map (\<lambda>idx. settle (mapper (items ! idx) idx)) [0..<length items])"
    using inv by (simp add: pool_inv_def)
next
  fix idx assume "idx < length (results s)"
  then have idx: "idx < length items" using inv by (simp add: pool_inv_def)
  then have "workers s \<noteq> []" using inv lim by (auto simp: pool_inv_def)
  then obtain x where "x \<in> set (workers s)" by (cases "workers s") auto
  then have "Finished \<in> set (workers s)" using fin by (auto simp: all_finished_def)
  then have "idx < cursor_i s" using inv idx by (simp add: pool_inv_def)
  moreover have "Awaiting idx \<notin> set (workers s)" using fin by (auto simp: all_finished_def)
  ultimately have "results s ! idx = settle (mapper (items ! idx) idx)"
    using inv idx unfolding pool_inv_def by blast
  then show "results s ! idx = map (\<lambda>idx. settle (mapper (items ! idx) idx)) [0..<length items] ! idx"
    using idx by simp
qed

lemma mapWithConcurrency_results:
  assumes "1 \<le> limit" and "mapWithConcurrency items limit mapper schedule = Some rs"
  shows "rs = map (\<lambda>idx. settle (mapper (items ! idx) idx)) [0..<length items]"
proof -
  from assms(2) obtain s where run: "run_schedule items mapper schedule (pool_start items limit) = Some s"
    and fin: "all_finished s" and rs: "rs = results s"
    by (auto simp: mapWithConcurrency_def split: option.splits if_splits)
  have "pool_inv items mapper limit s"
    using pool_inv_start run by (rule pool_inv_run)
  then show ?thesis using fin assms(1) rs by (simp add: pool_inv_final)
qed

lemma worker_step_measure:
  assumes "worker_step items mapper w s = Some s'"
  shows "Suc (pool_measure items s') = pool_measure items s"
proof -
  from assms have w: "w < length (workers s)"
    by (auto simp: worker_step_def split: if_splits)
  have upd: "sum_list (map worker_cost ((workers s)[w := x])) + worker_cost (workers s ! w)
             = sum_list (map worker_cost (workers s)) + worker_cost x" for x
  proof -
    have le: "worker_cost (workers s ! w) \<le> sum_list (map worker_cost (workers s))"
      using w by (simp add: member_le_sum_list)
    have "sum_list ((map worker_cost (workers s))[w := worker_cost x])
            = sum_list (map worker_cost (workers s)) + worker_cost x - map worker_cost (workers s) ! w"
      using w by (intro sum_list_update) simp
    then show ?thesis using w le by (simp add: map_update)
  qed
  show ?thesis
  proof (cases "workers s ! w")
    case Finished
    then show ?thesis using assms w by (simp add: worker_step_def)
  next
    case Ready
    then show ?thesis
      using assms w upd [of Finished] upd [of "Awaiting (cursor_i s)"]
      by (auto simp: worker_step_def pool_measure_def Let_def split: if_splits)
  next
    case (Awaiting idx)
    then show ?thesis
      using assms w upd [of Ready]
      by (auto simp: worker_step_def pool_measure_def)
  qed
qed

lemma run_schedule_measure:
  "run_schedule items mapper schedule s = Some s' \<Longrightarrow>
   pool_measure items s' + length schedule = pool_measure items s"
proof (induction schedule arbitrary: s)
  case Nil
  then show ?case by simp
next
  case (Cons w ws)
  then obtain s1 where st: "worker_step items mapper w s = Some s1"
    and run: "run_schedule items mapper ws s1 = Some s'"
    by (auto split: option.splits)
  show ?case
    using Cons.IH [OF run] worker_step_measure [OF st] by simp
qed

lemma run_schedule_append:
  "run_schedule items mapper (xs @ ys) s =
     (case run_schedule items mapper xs s of None \<Rightarrow> None
      | Some s1 \<Rightarrow> run_schedule items mapper ys s1)"
  by (induction xs arbitrary: s) (auto split: option.splits)

lemma pool_can_finish:
  "\<exists>schedule s'. run_schedule items mapper schedule s = Some s' \<and> all_finished s'"
proof (induction "pool_measure items s" arbitrary: s rule: less_induct)
  case less
  show ?case
  proof (cases "all_finished s")
    case True
    then have "run_schedule items mapper [] s = Some s \<and> all_finished s" by simp
    then show ?thesis by blast
  next
    case False
    then obtain x where x: "x \<in> set (workers s)" "x \<noteq> Finished"
      by (auto simp: all_finished_def)
    then obtain w where w: "w < length (workers s)" "workers s ! w = x"
      by (auto simp: in_set_conv_nth)
    have "worker_step items mapper w s \<noteq> None"
      using w x by (cases x) (auto simp: worker_step_def Let_def)
    then obtain s1 where st: "worker_step items mapper w s = Some s1"
      by blast
    then have "pool_measure items s1 < pool_measure items s"
      using worker_step_measure [OF st] by simp
    then obtain schedule s' where "run_schedule items mapper schedule s1 = Some s'" "all_finished s'"
      using less by blast
    then have "run_schedule items mapper (w # schedule) s = Some s' \<and> all_finished s'"
      using st by simp
    then show ?thesis by blast
  qed
qed


lemma pool_measure_start:
  "pool_measure items (pool_start items limit) = 2 * length items + min limit (length items)"
  by (simp add: pool_measure_def pool_start_def sum_list_replicate)

text \<open>
  C1. For every list of targets, every limit \<open>K \<ge> 1\<close> and every mapper, whatever the order
  in which the checks complete (the schedule): when the pool returns, which it does only
  once every worker has returned, the array has the length of the input and its entry
  \<open>idx\<close> is the outcome of the mapper on \<open>items[idx]\<close>. The pool does return: from every
  state it reaches some continuation completes it, and no run has more than
  \<open>2 * length items + K\<close> steps.
\<close>

theorem mapWithConcurrency_order:
  fixes items :: "'a list" and mapper :: "'a \<Rightarrow> nat \<Rightarrow> js_error + 'b"
  assumes "1 \<le> limit"
  shows "(\<forall>schedule rs. mapWithConcurrency items limit mapper schedule = Some rs \<longrightarrow>
            length rs = length items
            \<and> (\<forall>idx < length items. rs ! idx = settle (mapper (items ! idx) idx))
            \<and> (\<exists>s. run_schedule items mapper schedule (pool_start items limit) = Some s
                   \<and> all_finished s \<and> results s = rs))
         \<and> (\<forall>schedule s. run_schedule items mapper schedule (pool_start items limit) = Some s \<longrightarrow>
               length schedule \<le> 2 * length items + limit
               \<and> (\<exists>more rs. mapWithConcurrency items limit mapper (schedule @ more) = Some rs))"
proof -
  have A: "length rs = length items
            \<and> (\<forall>idx < length items. rs ! idx = settle (mapper (items ! idx) idx))
            \<and> (\<exists>s. run_schedule items mapper schedule (pool_start items limit) = Some s
                   \<and> all_finished s \<and> results s = rs)"
    if a: "mapWithConcurrency items limit mapper schedule = Some rs" for schedule rs
  proof -
    have rs: "rs = map (\<lambda>idx. settle (mapper (items ! idx) idx)) [0..<length items]"
      by (rule mapWithConcurrency_results [OF assms a])
    have "\<exists>s. run_schedule items mapper schedule (pool_start items limit) = Some s
          \<and> all_finished s \<and> results s = rs"
      using a by (auto simp: mapWithConcurrency_def split: option.splits if_splits)
    then show ?thesis by (simp add: rs)
  qed
  have B: "length schedule \<le> 2 * length items + limit
            \<and> (\<exists>more rs. mapWithConcurrency items limit mapper (schedule @ more) = Some rs)"
    if run: "run_schedule items mapper schedule (pool_start items limit) = Some s"
    for schedule and s :: "'b pool_state"
  proof -
    have "length schedule \<le> 2 * length items + limit"
      using run_schedule_measure [OF run] by (simp add: pool_measure_start)
    moreover obtain more s' where more: "run_schedule items mapper more s = Some s'"
      and fin: "all_finished s'"
      using pool_can_finish [of items mapper s] by blast
    have "mapWithConcurrency items limit mapper (schedule @ more) = Some (results s')"
      using run more fin by (simp add: mapWithConcurrency_def run_schedule_append)
    ultimately show ?thesis by blast
  qed
  from A B show ?thesis by blast
qed

theorem mapWithConcurrency_order_witness:
  "mapWithConcurrency [10, 20, 30 :: nat] 2 (\<lambda>item idx. Inr (item + idx)) [0, 1, 1, 1, 1, 1, 0, 0]
     = Some [Result 10, Result 21, Result 32 :: nat pool_entry]
   \<and> length [Result 10, Result 21, Result 32 :: nat pool_entry] = length [10, 20, 30 :: nat]
   \<and> [Result 10, Result 21, Result 32 :: nat pool_entry] ! 2
       = settle ((\<lambda>item idx. Inr (item + idx)) ([10, 20, 30 :: nat] ! 2) 2)"
proof -
  have l: "(1::nat) \<le> 2" by simp
  have e: "mapWithConcurrency [10, 20, 30 :: nat] 2 (\<lambda>item idx. Inr (item + idx)) [0, 1, 1, 1, 1, 1, 0, 0]
             = Some [Result 10, Result 21, Result 32 :: nat pool_entry]"
    by code_simp
  show ?thesis
    using mapWithConcurrency_order [OF l, of "[10, 20, 30 :: nat]" "\<lambda>item idx. Inr (item + idx)"] e
    by (simp add: settle_def)
qed

section \<open>Properties of the status response parser\<close>














text \<open>The request packets for host \<open>h\<close> and port 25565.\<close>

lemma handshake_for_h_25565:
  "buildMcHandshakePacket ''h'' 25565 758 = Inr [8, 0, 246, 5, 1, 104, 99, 221, 1]
   \<and> buildMcStatusRequestPacket = [1, 0]"
  by code_simp

section \<open>Properties of one tick\<close>

lemma CONCURRENCY_pos: "1 \<le> CONCURRENCY"
  by (simp add: CONCURRENCY_def)



lemma trim_nonempty: "trim k \<noteq> [] \<Longrightarrow> k \<noteq> []"
proof (rule notI)
  assume "trim k \<noteq> []" and "k = []"
  moreover have "trimStart [] = []" by (subst trimStart.simps) auto
  moreover have "trimEnd [] = []" by (subst trimEnd.simps) auto
  ultimately show False by (simp add: trim_def)
qed

lemma main_mapper_item:
  assumes id': "read_prop server ''id'' = JStr k" and k: "trim k \<noteq> []"
    and r: "fst (runCheck env server) = Inr r"
  shows "\<exists>next. main_mapper env statusIndex now server i = Inr (JObj next)
           \<and> map_of next ''id'' = Some (JStr k)
           \<and> map_of next ''online'' = Some (JBool (truthy (read_prop r ''online'')))
           \<and> map_of next ''lastCheckAt'' = Some (JStr now)
           \<and> read_prop (JObj next) ''players'' = read_prop r ''players''
           \<and> read_prop (JObj next) ''version'' = read_prop r ''version''"
proof -
  have nn: "\<not> nullish server" using id' by (auto simp: nullish_def)
  have valid: "\<not> invalid_id (JStr k)" using k by (simp add: invalid_id_def)
  show ?thesis
    using nn valid r id'
    by (simp add: main_mapper_def get_prop_ok Let_def update_conv' delete_conv')
qed

lemma status_entry_item:
  assumes "map_of next ''id'' = Some (JStr k)" and "k \<noteq> []"
    and "map_of next ''online'' = Some online" and "map_of next ''lastCheckAt'' = Some stamp"
  shows "status_entry ns (Result (JObj next)) =
     (if k = ''__proto__'' then ns
      else AList.update k
             (JObj ([(''online'', online), (''lastCheckAt'', stamp)]
                    @ (if read_prop (JObj next) ''players'' \<noteq> JUndefined
                       then [(''players'', read_prop (JObj next) ''players'')] else [])
                    @ (if read_prop (JObj next) ''version'' \<noteq> JUndefined
                       then [(''version'', read_prop (JObj next) ''version'')] else [])))
             ns)"
  using assms by (simp add: status_entry_def Let_def)

lemma main_mapper_invalid:
  "(\<forall>k. read_prop server ''id'' = JStr k \<longrightarrow> trim k = []) \<Longrightarrow>
   main_mapper env statusIndex now server i = Inl TypeError
   \<or> main_mapper env statusIndex now server i = Inr JNull"
  by (cases "read_prop server ''id''")
     (auto simp: main_mapper_def get_prop_def invalid_id_def Let_def)

lemma main_mapper_error:
  "fst (runCheck env server) = Inl err \<Longrightarrow>
   (\<exists>e. main_mapper env statusIndex now server i = Inl e)
   \<or> main_mapper env statusIndex now server i = Inr JNull"
  by (auto simp: main_mapper_def get_prop_def Let_def)

lemma status_entry_skip:
  "status_entry ns (ErrorMarker err) = ns"
  "status_entry ns (Result JNull) = ns"
  "status_entry ns Hole = ns"
  by (simp_all add: status_entry_def)


lemma fold_updates_keys:
  assumes g: "\<And>ns x. g ns x = (case e x of None \<Rightarrow> ns | Some (k, v) \<Rightarrow> AList.update k v ns)"
  shows "fst ` set (foldl g ns xs) = fst ` set ns \<union> {k. \<exists>x \<in> set xs. \<exists>v. e x = Some (k, v)}"
proof (induction xs arbitrary: ns)
  case Nil
  then show ?case by simp
next
  case (Cons x xs)
  have unfold: "foldl g ns (x # xs) = foldl g (g ns x) xs" by simp
  show ?case
  proof (cases "e x")
    case None
    have "g ns x = ns" using g [of ns x] None by simp
    then show ?thesis unfolding unfold using Cons [of ns] None by auto
  next
    case (Some kv)
    obtain k v where kv: "kv = (k, v)" by (cases kv)
    have "g ns x = AList.update k v ns" using g [of ns x] Some kv by simp
    then have "fst ` set (foldl g ns (x # xs))
            = fst ` set (AList.update k v ns) \<union> {k. \<exists>x \<in> set xs. \<exists>v. e x = Some (k, v)}"
      unfolding unfold using Cons [of "AList.update k v ns"] by simp
    then show ?thesis using Some kv by (auto simp: dom_update)
  qed
qed

lemma fold_updates_distinct:
  assumes g: "\<And>ns x. g ns x = (case e x of None \<Rightarrow> ns | Some (k, v) \<Rightarrow> AList.update k v ns)"
  shows "distinct (map fst ns) \<Longrightarrow> distinct (map fst (foldl g ns xs))"
proof (induction xs arbitrary: ns)
  case Nil
  then show ?case by simp
next
  case (Cons x xs)
  have unfold: "foldl g ns (x # xs) = foldl g (g ns x) xs" by simp
  have "distinct (map fst (g ns x))"
    using g [of ns x] Cons.prems by (cases "e x") (auto simp: distinct_update)
  then show ?case unfolding unfold by (rule Cons.IH)
qed

lemma fold_updates_keep:
  assumes g: "\<And>ns x. g ns x = (case e x of None \<Rightarrow> ns | Some (k, v) \<Rightarrow> AList.update k v ns)"
  shows "(\<forall>y \<in> set xs. \<forall>v. e y \<noteq> Some (k, v)) \<Longrightarrow> map_of (foldl g ns xs) k = map_of ns k"
proof (induction xs arbitrary: ns)
  case Nil
  then show ?case by simp
next
  case (Cons x xs)
  have unfold: "foldl g ns (x # xs) = foldl g (g ns x) xs" by simp
  have "map_of (g ns x) k = map_of ns k"
    using g [of ns x] Cons.prems by (cases "e x") (auto simp: update_conv')
  moreover have "map_of (foldl g (g ns x) xs) k = map_of (g ns x) k"
    using Cons.prems by (intro Cons.IH) simp
  ultimately show ?case unfolding unfold by simp
qed

lemma fold_updates_last:
  assumes g: "\<And>ns x. g ns x = (case e x of None \<Rightarrow> ns | Some (k, v) \<Rightarrow> AList.update k v ns)"
    and x: "e x = Some (k, v)" and post: "\<forall>y \<in> set post. \<forall>v'. e y \<noteq> Some (k, v')"
  shows "map_of (foldl g ns (pre @ x # post)) k = Some v"
proof -
  have "foldl g ns (pre @ x # post) = foldl g (g (foldl g ns pre) x) post" by simp
  then have "map_of (foldl g ns (pre @ x # post)) k = map_of (g (foldl g ns pre) x) k"
    using fold_updates_keep [of g e post k, OF g post] by simp
  then show ?thesis using x g [of "foldl g ns pre" x] by (simp add: update_conv')
qed

lemma main_mapper_index:
  "main_mapper env statusIndex now server i = main_mapper env statusIndex now server 0"
  by (simp add: main_mapper_def)

lemma status_entry_emitted:
  "status_entry ns (settle (main_mapper env statusIndex (rt_now env) server i)) =
     (case emitted env server of None \<Rightarrow> ns | Some (k, v) \<Rightarrow> AList.update k v ns)"
proof (cases "\<exists>k. read_prop server ''id'' = JStr k \<and> trim k \<noteq> []")
  case False
  then have inv: "\<forall>k. read_prop server ''id'' = JStr k \<longrightarrow> trim k = []" by blast
  have e: "emitted env server = None"
    using inv by (cases "read_prop server ''id''") (simp_all add: emitted_def)
  show ?thesis
    using main_mapper_invalid [OF inv, of env statusIndex "rt_now env" i]
    by (auto simp: e settle_def status_entry_skip)
next
  case True
  then obtain k where k: "read_prop server ''id'' = JStr k" "trim k \<noteq> []" by blast
  show ?thesis
  proof (cases "fst (runCheck env server)")
    case (Inl err)
    have e: "emitted env server = None" using k Inl by (simp add: emitted_def)
    show ?thesis
      using main_mapper_error [OF Inl, of statusIndex "rt_now env" i]
      by (auto simp: e settle_def status_entry_skip)
  next
    case (Inr r)
    obtain "next" where n: "main_mapper env statusIndex (rt_now env) server i = Inr (JObj next)"
      "map_of next ''id'' = Some (JStr k)"
      "map_of next ''online'' = Some (JBool (truthy (read_prop r ''online'')))"
      "map_of next ''lastCheckAt'' = Some (JStr (rt_now env))"
      "read_prop (JObj next) ''players'' = read_prop r ''players''"
      "read_prop (JObj next) ''version'' = read_prop r ''version''"
      using main_mapper_item [OF k Inr, of statusIndex "rt_now env" i] by blast
    have e: "emitted env server = (if k = ''__proto__'' then None else Some (k, status_record r (rt_now env)))"
      using k Inr by (simp add: emitted_def)
    show ?thesis
      unfolding n(1) e settle_def
      using status_entry_item [OF n(2) trim_nonempty [OF k(2)] n(3) n(4), of ns]
      by (simp add: n(5) n(6) status_record_def del: read_prop.simps)
  qed
qed

lemma buildNextStatus_targets:
  "buildNextStatus (map (\<lambda>idx. settle (main_mapper env statusIndex (rt_now env) (targets ! idx) idx))
                      [0..<length targets])
   = foldl (\<lambda>ns server. status_entry ns (settle (main_mapper env statusIndex (rt_now env) server 0)))
       [] targets"
proof -
  have "map (\<lambda>idx. settle (main_mapper env statusIndex (rt_now env) (targets ! idx) idx)) [0..<length targets]
        = map (\<lambda>idx. (\<lambda>server. settle (main_mapper env statusIndex (rt_now env) server 0)) (targets ! idx))
            [0..<length targets]"
    by (subst main_mapper_index) simp
  also have "\<dots> = map (\<lambda>server. settle (main_mapper env statusIndex (rt_now env) server 0)) targets"
    by (rule nth_equalityI) simp_all
  finally show ?thesis by (simp add: buildNextStatus_def foldl_map)
qed

lemma emitted_Some_iff:
  "(emitted env server = Some (k, v)) =
   (read_prop server ''id'' = JStr k \<and> trim k \<noteq> [] \<and> k \<noteq> ''__proto__''
    \<and> (\<exists>r. fst (runCheck env server) = Inr r \<and> v = status_record r (rt_now env)))"
  by (cases "read_prop server ''id''"; cases "fst (runCheck env server)")
     (auto simp: emitted_def)

text \<open>
  C9. When the previous snapshot file can be read but its content does not parse as JSON,
  the tick ends without a single file operation, so the snapshot file is left as it was,
  and with a non-zero exit code: \<open>main()\<close> rejects with the parse error, which the entry
  point reports and turns into exit code 1, unless the configuration was already missing
  or not an array, where the tick stops with exit code 2 before it reads the snapshot.
\<close>

theorem snapshot_unparsable_aborts:
  assumes "rt_readFile env STATUS_PATH = Inr content" and "rt_jsonParse env content = None"
  shows "\<exists>t. main env schedule = Some t \<and> fs_ops t = [] \<and> exit_code t \<noteq> 0
           \<and> (\<forall>targets. readJsonIfExists env CONFIG_PATH JNull = Inr (JArr targets)
                 \<longrightarrow> outcome t = Inl SyntaxError)"
proof -
  have st: "readJsonIfExists env STATUS_PATH (JArr []) = Inl SyntaxError"
    using assms by (simp add: readJsonIfExists_def)
  show ?thesis
  proof (cases "readJsonIfExists env CONFIG_PATH JNull")
    case (Inl err)
    then show ?thesis by (simp add: main_def exit_code_def)
  next
    case (Inr config)
    then show ?thesis
      by (cases config) (simp_all add: main_def exit_code_def st)
  qed
qed

theorem snapshot_unparsable_aborts_witness:
  \<open>rt_readFile corrupt_env STATUS_PATH = Inr (utf8_bytes ''{"web":{"online":tr'')
   \<and> rt_jsonParse corrupt_env (utf8_bytes ''{"web":{"online":tr'') = None
   \<and> (\<exists>t. main corrupt_env [] = Some t \<and> fs_ops t = [] \<and> exit_code t \<noteq> 0
          \<and> (\<forall>targets. readJsonIfExists corrupt_env CONFIG_PATH JNull = Inr (JArr targets)
                \<longrightarrow> outcome t = Inl SyntaxError))\<close>
proof -
  have r: \<open>rt_readFile corrupt_env STATUS_PATH = Inr (utf8_bytes ''{"web":{"online":tr'')\<close>
    by code_simp
  have p: \<open>rt_jsonParse corrupt_env (utf8_bytes ''{"web":{"online":tr'') = None\<close>
    by code_simp
  show ?thesis
    using snapshot_unparsable_aborts [OF r p, of "[]"] r p by simp
qed

lemma atomicWriteJson_renamed:
  assumes "atomicWriteJson env filePath data = (e, ops)"
    and "Rename (rt_tmpPath env filePath) filePath \<in> set ops"
  shows "e = None \<and> ops = [WriteFile (rt_tmpPath env filePath) data,
                               Rename (rt_tmpPath env filePath) filePath]"
  using assms by (auto simp: atomicWriteJson_def Let_def split: option.splits)

lemma main_written:
  assumes cfg: "readJsonIfExists env CONFIG_PATH JNull = Inr (JArr targets)"
    and tick: "main env schedule = Some t"
    and written: "Rename (rt_tmpPath env STATUS_PATH) STATUS_PATH \<in> set (fs_ops t)"
  shows "\<exists>prev rs.
     mapWithConcurrency targets CONCURRENCY
        (main_mapper env (makeStatusIndex (normalizeStatusArray prev)) (rt_now env)) schedule = Some rs
     \<and> fs_ops t = [WriteFile (rt_tmpPath env STATUS_PATH) (JObj (buildNextStatus rs)),
                     Rename (rt_tmpPath env STATUS_PATH) STATUS_PATH]
     \<and> outcome t = (if join_throws (disabled_ids targets) then Inl TypeError else Inr None)"
proof (cases "readJsonIfExists env STATUS_PATH (JArr [])")
  case (Inl err)
  then have "fs_ops t = []" using tick by (auto simp: main_def cfg)
  then show ?thesis using written by simp
next
  case (Inr prev)
  show ?thesis
  proof (cases "mapWithConcurrency targets CONCURRENCY
             (main_mapper env (makeStatusIndex (normalizeStatusArray prev)) (rt_now env)) schedule")
    case None
    then show ?thesis using tick by (simp add: main_def cfg Inr Let_def)
  next
    case (Some rs)
    obtain e ops where w: "atomicWriteJson env STATUS_PATH (JObj (buildNextStatus rs)) = (e, ops)"
      by (cases "atomicWriteJson env STATUS_PATH (JObj (buildNextStatus rs))")
    have t: "t = (case e of
                    Some err \<Rightarrow> \<lparr>outcome = Inl err, fs_ops = ops\<rparr>
                  | None \<Rightarrow> if join_throws (disabled_ids targets)
                            then \<lparr>outcome = Inl TypeError, fs_ops = ops\<rparr>
                            else \<lparr>outcome = Inr None, fs_ops = ops\<rparr>)"
      using tick by (simp add: main_def cfg Inr Some Let_def w split: option.splits if_splits)
    then have "fs_ops t = ops" by (simp split: option.splits if_splits)
    then have "e = None \<and> ops = [WriteFile (rt_tmpPath env STATUS_PATH) (JObj (buildNextStatus rs)),
                               Rename (rt_tmpPath env STATUS_PATH) STATUS_PATH]"
      using atomicWriteJson_renamed [OF w] written by simp
    then show ?thesis using Some t by (intro exI [of _ prev] exI [of _ rs]) simp
  qed
qed

text \<open>
  C5, as amended. When the configuration is an array and the tick gets as far as renaming
  the temporary file over the snapshot, the data written is one object, written to the
  temporary file that is then renamed, with at most one record per id; \<open>main()\<close> then
  resolves, unless the id of a disabled target cannot be converted to a string, where the
  closing console output throws a TypeError after the write. Leaving the id \<open>__proto__\<close>
  aside, the keys of the object are exactly the ids that are non-blank strings of targets
  whose check did not throw; a target with a missing or blank id, one that is no longer in
  the list, and one whose check threw have no record. The record of such an id (taken from
  the last target that carries it) is \<open>online\<close> and the time stamp of this tick, then
  \<open>players\<close> and \<open>version\<close> exactly when the result of this tick's check has them; nothing
  of the previous snapshot enters it. A disabled target, and one that \<open>shouldSkipPoll\<close>
  passes over, get exactly \<open>{online: false, lastCheckAt}\<close>, provided \<open>Number(timeoutMs)\<close>
  does not throw for them; where it throws, the check throws and the target has no record.
\<close>

theorem snapshot_postcondition:
  assumes cfg: "readJsonIfExists env CONFIG_PATH JNull = Inr (JArr targets)"
    and tick: "main env schedule = Some t"
    and written: "Rename (rt_tmpPath env STATUS_PATH) STATUS_PATH \<in> set (fs_ops t)"
  shows "\<exists>snapshot.
     fs_ops t = [WriteFile (rt_tmpPath env STATUS_PATH) (JObj snapshot),
                 Rename (rt_tmpPath env STATUS_PATH) STATUS_PATH]
     \<and> outcome t = (if join_throws (disabled_ids targets) then Inl TypeError else Inr None)
     \<and> distinct (map fst snapshot)
     \<and> (\<forall>k. k \<noteq> ''__proto__'' \<longrightarrow>
             (k \<in> fst ` set snapshot) =
             (\<exists>server \<in> set targets. \<exists>r.
                read_prop server ''id'' = JStr k \<and> trim k \<noteq> []
                \<and> fst (runCheck env server) = Inr r))
     \<and> (\<forall>i k r.
           i < length targets \<and> read_prop (targets ! i) ''id'' = JStr k \<and> trim k \<noteq> []
           \<and> k \<noteq> ''__proto__'' \<and> fst (runCheck env (targets ! i)) = Inr r
           \<and> (\<forall>j. i < j \<and> j < length targets \<longrightarrow> read_prop (targets ! j) ''id'' \<noteq> JStr k)
           \<longrightarrow> map_of snapshot k =
                 Some (JObj ([(''online'', JBool (truthy (read_prop r ''online''))),
                              (''lastCheckAt'', JStr (rt_now env))]
                             @ (if read_prop r ''players'' \<noteq> JUndefined
                                then [(''players'', read_prop r ''players'')] else [])
                             @ (if read_prop r ''version'' \<noteq> JUndefined
                                then [(''version'', read_prop r ''version'')] else []))))
     \<and> (\<forall>i k.
           i < length targets \<and> read_prop (targets ! i) ''id'' = JStr k \<and> trim k \<noteq> []
           \<and> k \<noteq> ''__proto__''
           \<and> \<not> ToPrimitive_throws (read_prop (targets ! i) ''timeoutMs'')
           \<and> (\<not> isEnabled (targets ! i) \<or> shouldSkipPoll (rt_conv env) (targets ! i) = Inr True)
           \<and> (\<forall>j. i < j \<and> j < length targets \<longrightarrow> read_prop (targets ! j) ''id'' \<noteq> JStr k)
           \<longrightarrow> map_of snapshot k =
                 Some (JObj [(''online'', JBool False), (''lastCheckAt'', JStr (rt_now env))]))
     \<and> (\<forall>k. k \<noteq> ''__proto__''
           \<and> (\<forall>server \<in> set targets. read_prop server ''id'' = JStr k \<longrightarrow>
                  ToPrimitive_throws (read_prop server ''timeoutMs''))
           \<longrightarrow> map_of snapshot k = None)"
proof -
  obtain prev rs where
    pool: "mapWithConcurrency targets CONCURRENCY
             (main_mapper env (makeStatusIndex (normalizeStatusArray prev)) (rt_now env)) schedule = Some rs"
    and ops: "fs_ops t = [WriteFile (rt_tmpPath env STATUS_PATH) (JObj (buildNextStatus rs)),
                          Rename (rt_tmpPath env STATUS_PATH) STATUS_PATH]"
    and out: "outcome t = (if join_throws (disabled_ids targets) then Inl TypeError else Inr None)"
    using main_written [OF cfg tick written] by blast
  define statusIndex where "statusIndex = makeStatusIndex (normalizeStatusArray prev)"
  define g where
    "g = (\<lambda>ns server. status_entry ns (settle (main_mapper env statusIndex (rt_now env) server 0)))"
  define snapshot where "snapshot = foldl g [] targets"
  have rs: "rs = map (\<lambda>idx. settle (main_mapper env statusIndex (rt_now env) (targets ! idx) idx))
                   [0..<length targets]"
    unfolding statusIndex_def by (rule mapWithConcurrency_results [OF CONCURRENCY_pos pool])
  have snap: "buildNextStatus rs = snapshot"
    unfolding rs snapshot_def g_def by (rule buildNextStatus_targets)
  have g: "g ns x = (case emitted env x of None \<Rightarrow> ns | Some (k, v) \<Rightarrow> AList.update k v ns)" for ns x
    by (simp add: g_def status_entry_emitted)
  have later: "\<forall>y \<in> set (drop (Suc i) targets). \<forall>v'. emitted env y \<noteq> Some (k, v')"
    if "\<forall>j. i < j \<and> j < length targets \<longrightarrow> read_prop (targets ! j) ''id'' \<noteq> JStr k" for i k
  proof (intro ballI allI)
    fix y v' assume "y \<in> set (drop (Suc i) targets)"
    then obtain m where m: "m < length targets - Suc i" "y = targets ! (Suc i + m)"
      by (auto simp: in_set_conv_nth)
    then have "read_prop y ''id'' \<noteq> JStr k" using that by simp
    then show "emitted env y \<noteq> Some (k, v')" by (simp add: emitted_Some_iff)
  qed
  have rec_at: "map_of snapshot k = Some (status_record r (rt_now env))"
    if "i < length targets" "read_prop (targets ! i) ''id'' = JStr k" "trim k \<noteq> []"
      "k \<noteq> ''__proto__''" "fst (runCheck env (targets ! i)) = Inr r"
      "\<forall>j. i < j \<and> j < length targets \<longrightarrow> read_prop (targets ! j) ''id'' \<noteq> JStr k" for i k r
  proof -
    have e: "emitted env (targets ! i) = Some (k, status_record r (rt_now env))"
      using that by (simp add: emitted_Some_iff)
    have split: "targets = take i targets @ targets ! i # drop (Suc i) targets"
      using that(1) by (rule id_take_nth_drop)
    have "map_of (foldl g [] (take i targets @ targets ! i # drop (Suc i) targets)) k
            = Some (status_record r (rt_now env))"
      using g e later [OF that(6)] by (rule fold_updates_last)
    then show ?thesis unfolding snapshot_def using split by simp
  qed
  have 1: "distinct (map fst snapshot)"
    unfolding snapshot_def using g by (rule fold_updates_distinct) simp
  have 2: "(k \<in> fst ` set snapshot) =
             (\<exists>server \<in> set targets. \<exists>r.
                read_prop server ''id'' = JStr k \<and> trim k \<noteq> []
                \<and> fst (runCheck env server) = Inr r)" if "k \<noteq> ''__proto__''" for k
    unfolding snapshot_def fold_updates_keys [of g "emitted env", OF g]
    using that by (auto simp: emitted_Some_iff)
  have 3: "map_of snapshot k =
                 Some (JObj ([(''online'', JBool (truthy (read_prop r ''online''))),
                              (''lastCheckAt'', JStr (rt_now env))]
                             @ (if read_prop r ''players'' \<noteq> JUndefined
                                then [(''players'', read_prop r ''players'')] else [])
                             @ (if read_prop r ''version'' \<noteq> JUndefined
                                then [(''version'', read_prop r ''version'')] else [])))"
    if "i < length targets \<and> read_prop (targets ! i) ''id'' = JStr k \<and> trim k \<noteq> []
           \<and> k \<noteq> ''__proto__'' \<and> fst (runCheck env (targets ! i)) = Inr r
           \<and> (\<forall>j. i < j \<and> j < length targets \<longrightarrow> read_prop (targets ! j) ''id'' \<noteq> JStr k)" for i k r
    using rec_at [of i k r] that by (simp add: status_record_def)
  have 4: "map_of snapshot k =
                 Some (JObj [(''online'', JBool False), (''lastCheckAt'', JStr (rt_now env))])"
    if a: "i < length targets \<and> read_prop (targets ! i) ''id'' = JStr k \<and> trim k \<noteq> []
           \<and> k \<noteq> ''__proto__''
           \<and> \<not> ToPrimitive_throws (read_prop (targets ! i) ''timeoutMs'')
           \<and> (\<not> isEnabled (targets ! i) \<or> shouldSkipPoll (rt_conv env) (targets ! i) = Inr True)
           \<and> (\<forall>j. i < j \<and> j < length targets \<longrightarrow> read_prop (targets ! j) ''id'' \<noteq> JStr k)" for i k
  proof (cases "isEnabled (targets ! i)")
    case False
    then have "fst (runCheck env (targets ! i))
                 = Inr (JObj [(''online'', JBool False), (''disabled'', JBool True)])"
      using a by (simp add: runCheck_disabled)
    then show ?thesis using rec_at [of i k] a by (simp add: status_record_def)
  next
    case True
    then have "fst (runCheck env (targets ! i))
                 = Inr (JObj [(''online'', JBool False), (''skipped'', JBool True)])"
      using a by (simp add: runCheck_skipped)
    then show ?thesis using rec_at [of i k] a by (simp add: status_record_def)
  qed
  have 5: "map_of snapshot k = None"
    if a: "k \<noteq> ''__proto__''
           \<and> (\<forall>server \<in> set targets. read_prop server ''id'' = JStr k \<longrightarrow>
                  ToPrimitive_throws (read_prop server ''timeoutMs''))" for k
  proof -
    have "k \<notin> fst ` set snapshot"
    proof
      assume "k \<in> fst ` set snapshot"
      then obtain server r where s: "server \<in> set targets" "read_prop server ''id'' = JStr k"
        "fst (runCheck env server) = Inr r"
        using 2 [of k] a by blast
      have "\<not> nullish server" using s(2) by (auto simp: nullish_def)
      moreover have "ToPrimitive_throws (read_prop server ''timeoutMs'')" using a s(1,2) by blast
      ultimately have "runCheck env server = (Inl TypeError, [])" by (rule runCheck_throws)
      then show False using s(3) by simp
    qed
    then show ?thesis by (simp add: map_of_eq_None_iff)
  qed
  show ?thesis
    using ops out 1 2 3 4 5 unfolding snap by blast
qed

theorem snapshot_postcondition_witness:
  "readJsonIfExists tick_env CONFIG_PATH JNull = Inr (JArr config_targets)
   \<and> (\<exists>t. main tick_env [0, 1, 2, 3, 4, 4, 3, 2, 1, 0, 0, 1, 2, 3, 4] = Some t
          \<and> Rename (rt_tmpPath tick_env STATUS_PATH) STATUS_PATH \<in> set (fs_ops t)
          \<and> outcome t = Inr None
          \<and> (\<exists>snapshot.
                fs_ops t = [WriteFile (rt_tmpPath tick_env STATUS_PATH) (JObj snapshot),
                            Rename (rt_tmpPath tick_env STATUS_PATH) STATUS_PATH]
                \<and> distinct (map fst snapshot)
                \<and> map_of snapshot ''off''
                    = Some (JObj [(''online'', JBool False), (''lastCheckAt'', JStr (rt_now tick_env))])))
   \<and> readJsonIfExists unprintable_env CONFIG_PATH JNull = Inr (JArr unprintable_config_targets)
   \<and> (\<exists>t. main unprintable_env [0, 1, 2, 2, 1, 0, 0, 1, 2] = Some t
          \<and> Rename (rt_tmpPath unprintable_env STATUS_PATH) STATUS_PATH \<in> set (fs_ops t)
          \<and> outcome t = Inl TypeError
          \<and> (\<exists>snapshot.
                fs_ops t = [WriteFile (rt_tmpPath unprintable_env STATUS_PATH) (JObj snapshot),
                            Rename (rt_tmpPath unprintable_env STATUS_PATH) STATUS_PATH]
                \<and> distinct (map fst snapshot)
                \<and> map_of snapshot ''late'' = None))"
proof -
  have cfg: "readJsonIfExists tick_env CONFIG_PATH JNull = Inr (JArr config_targets)"
    by code_simp
  have tick: "main tick_env [0, 1, 2, 3, 4, 4, 3, 2, 1, 0, 0, 1, 2, 3, 4]
    = Some \<lparr>outcome = Inr None,
            fs_ops =
              [WriteFile ''../frontend/.servers.status.json.4242.1767225600000.tmp''
                 (JObj [(''web'', JObj [(''online'', JBool True),
                                        (''lastCheckAt'', JStr ''2026-01-01T00:00:00.000Z'')]),
                        (''mc'', JObj [(''online'', JBool False),
                                       (''lastCheckAt'', JStr ''2026-01-01T00:00:00.000Z'')]),
                        (''off'', JObj [(''online'', JBool False),
                                        (''lastCheckAt'', JStr ''2026-01-01T00:00:00.000Z'')])]),
               Rename ''../frontend/.servers.status.json.4242.1767225600000.tmp''
                 ''../frontend/servers.status.json'']\<rparr>"
    (is "_ = Some ?t")
    by code_simp
  have written: "Rename (rt_tmpPath tick_env STATUS_PATH) STATUS_PATH \<in> set (fs_ops ?t)"
    by (simp add: tick_env_def sample_env_def STATUS_PATH_def)
  have nothrow: "\<not> join_throws (disabled_ids config_targets)" by code_simp
  have off: "2 < length config_targets \<and> read_prop (config_targets ! 2) ''id'' = JStr ''off''
     \<and> trim ''off'' \<noteq> [] \<and> ''off'' \<noteq> ''__proto__''
     \<and> \<not> ToPrimitive_throws (read_prop (config_targets ! 2) ''timeoutMs'')
     \<and> (\<not> isEnabled (config_targets ! 2)
         \<or> shouldSkipPoll (rt_conv tick_env) (config_targets ! 2) = Inr True)
     \<and> (\<forall>j. 2 < j \<and> j < length config_targets \<longrightarrow> read_prop (config_targets ! j) ''id'' \<noteq> JStr ''off'')"
  proof (intro conjI allI impI)
    show "2 < length config_targets" by code_simp
    show "read_prop (config_targets ! 2) ''id'' = JStr ''off''" by code_simp
    show "trim ''off'' \<noteq> []" by code_simp
    show "''off'' \<noteq> ''__proto__''" by simp
    show "\<not> ToPrimitive_throws (read_prop (config_targets ! 2) ''timeoutMs'')" by code_simp
    show "\<not> isEnabled (config_targets ! 2)
         \<or> shouldSkipPoll (rt_conv tick_env) (config_targets ! 2) = Inr True" by code_simp
    fix j assume "2 < j \<and> j < length config_targets"
    then have "j = 3 \<or> j = 4" by (auto simp: config_targets_def)
    then show "read_prop (config_targets ! j) ''id'' \<noteq> JStr ''off''"
      by (auto simp: config_targets_def)
  qed
  obtain snapshot where s: "fs_ops ?t = [WriteFile (rt_tmpPath tick_env STATUS_PATH) (JObj snapshot),
                            Rename (rt_tmpPath tick_env STATUS_PATH) STATUS_PATH]"
    "outcome ?t = (if join_throws (disabled_ids config_targets) then Inl TypeError else Inr None)"
    "distinct (map fst snapshot)"
    "\<forall>i k. i < length config_targets \<and> read_prop (config_targets ! i) ''id'' = JStr k \<and> trim k \<noteq> []
           \<and> k \<noteq> ''__proto__''
           \<and> \<not> ToPrimitive_throws (read_prop (config_targets ! i) ''timeoutMs'')
           \<and> (\<not> isEnabled (config_targets ! i) \<or> shouldSkipPoll (rt_conv tick_env) (config_targets ! i) = Inr True)
           \<and> (\<forall>j. i < j \<and> j < length config_targets \<longrightarrow> read_prop (config_targets ! j) ''id'' \<noteq> JStr k)
           \<longrightarrow> map_of snapshot k =
                 Some (JObj [(''online'', JBool False), (''lastCheckAt'', JStr (rt_now tick_env))])"
    using snapshot_postcondition [OF cfg tick written] by (elim exE conjE) (rule that; assumption)
  have "map_of snapshot ''off''
          = Some (JObj [(''online'', JBool False), (''lastCheckAt'', JStr (rt_now tick_env))])"
    using s(4) [THEN spec, THEN spec, THEN mp, OF off] .
  then have first: "\<exists>snapshot.
                fs_ops ?t = [WriteFile (rt_tmpPath tick_env STATUS_PATH) (JObj snapshot),
                            Rename (rt_tmpPath tick_env STATUS_PATH) STATUS_PATH]
                \<and> distinct (map fst snapshot)
                \<and> map_of snapshot ''off''
                    = Some (JObj [(''online'', JBool False), (''lastCheckAt'', JStr (rt_now tick_env))])"
    using s(1,3) by (intro exI [of _ snapshot] conjI)
  have cfg': "readJsonIfExists unprintable_env CONFIG_PATH JNull = Inr (JArr unprintable_config_targets)"
    by code_simp
  have tick': "main unprintable_env [0, 1, 2, 2, 1, 0, 0, 1, 2]
    = Some \<lparr>outcome = Inl TypeError,
            fs_ops =
              [WriteFile ''../frontend/.servers.status.json.4242.1767225600000.tmp''
                 (JObj [(''ok'', JObj [(''online'', JBool False),
                                       (''lastCheckAt'', JStr ''2026-01-01T00:00:00.000Z'')])]),
               Rename ''../frontend/.servers.status.json.4242.1767225600000.tmp''
                 ''../frontend/servers.status.json'']\<rparr>"
    (is "_ = Some ?u")
    by code_simp
  have written': "Rename (rt_tmpPath unprintable_env STATUS_PATH) STATUS_PATH \<in> set (fs_ops ?u)"
    by (simp add: unprintable_env_def sample_env_def STATUS_PATH_def)
  have late: "''late'' \<noteq> ''__proto__''
           \<and> (\<forall>server \<in> set unprintable_config_targets. read_prop server ''id'' = JStr ''late'' \<longrightarrow>
                  ToPrimitive_throws (read_prop server ''timeoutMs''))"
    by (simp add: unprintable_config_targets_def)
  obtain snapshot' where u: "fs_ops ?u = [WriteFile (rt_tmpPath unprintable_env STATUS_PATH) (JObj snapshot'),
                            Rename (rt_tmpPath unprintable_env STATUS_PATH) STATUS_PATH]"
    "distinct (map fst snapshot')"
    "\<forall>k. k \<noteq> ''__proto__''
           \<and> (\<forall>server \<in> set unprintable_config_targets. read_prop server ''id'' = JStr k \<longrightarrow>
                  ToPrimitive_throws (read_prop server ''timeoutMs''))
           \<longrightarrow> map_of snapshot' k = None"
    using snapshot_postcondition [OF cfg' tick' written'] by (elim exE conjE) (rule that; assumption)
  have "map_of snapshot' ''late'' = None"
    using u(3) [THEN spec, THEN mp, OF late] .
  then have second: "\<exists>snapshot.
                fs_ops ?u = [WriteFile (rt_tmpPath unprintable_env STATUS_PATH) (JObj snapshot),
                            Rename (rt_tmpPath unprintable_env STATUS_PATH) STATUS_PATH]
                \<and> distinct (map fst snapshot)
                \<and> map_of snapshot ''late'' = None"
    using u(1,2) by (intro exI [of _ snapshot'] conjI)
  have A: "\<exists>t. main tick_env [0, 1, 2, 3, 4, 4, 3, 2, 1, 0, 0, 1, 2, 3, 4] = Some t
          \<and> Rename (rt_tmpPath tick_env STATUS_PATH) STATUS_PATH \<in> set (fs_ops t)
          \<and> outcome t = Inr None
          \<and> (\<exists>snapshot.
                fs_ops t = [WriteFile (rt_tmpPath tick_env STATUS_PATH) (JObj snapshot),
                            Rename (rt_tmpPath tick_env STATUS_PATH) STATUS_PATH]
                \<and> distinct (map fst snapshot)
                \<and> map_of snapshot ''off''
                    = Some (JObj [(''online'', JBool False), (''lastCheckAt'', JStr (rt_now tick_env))]))"
    using tick written first by (intro exI [of _ ?t] conjI) simp_all
  have B: "\<exists>t. main unprintable_env [0, 1, 2, 2, 1, 0, 0, 1, 2] = Some t
          \<and> Rename (rt_tmpPath unprintable_env STATUS_PATH) STATUS_PATH \<in> set (fs_ops t)
          \<and> outcome t = Inl TypeError
          \<and> (\<exists>snapshot.
                fs_ops t = [WriteFile (rt_tmpPath unprintable_env STATUS_PATH) (JObj snapshot),
                            Rename (rt_tmpPath unprintable_env STATUS_PATH) STATUS_PATH]
                \<and> distinct (map fst snapshot)
                \<and> map_of snapshot ''late'' = None)"
    using tick' written' second by (intro exI [of _ ?u] conjI) simp_all
  show ?thesis using cfg A cfg' B by (intro conjI)
qed

text \<open>
  The claim as stated fails on a target whose check throws: \<open>a\<close> has a non-blank id, the
  connection to its port 70000 throws, the pool keeps an error marker for it, and the
  snapshot written holds a record for \<open>b\<close> only.
\<close>

theorem snapshot_postcondition_counterexample:
  "readJsonIfExists failing_env CONFIG_PATH JNull = Inr (JArr failing_config_targets)
   \<and> read_prop (failing_config_targets ! 0) ''id'' = JStr ''a''
   \<and> trim ''a'' = ''a''
   \<and> main failing_env [0, 1, 1, 1, 0, 0]
       = Some \<lparr>outcome = Inr None,
               fs_ops =
                 [WriteFile ''../frontend/.servers.status.json.4242.1767225600000.tmp''
                    (JObj [(''b'', JObj [(''online'', JBool False),
                                         (''lastCheckAt'', JStr ''2026-01-01T00:00:00.000Z'')])]),
                  Rename ''../frontend/.servers.status.json.4242.1767225600000.tmp''
                    ''../frontend/servers.status.json'']\<rparr>"
  by code_simp

text \<open>
  C2, as amended. When the mapper throws or rejects for the item at one index, the pool
  stores an error marker at that index and nowhere else, every other index holds the
  outcome of its own item, and the pool still returns its array under every order of
  completion: nothing is thrown to its caller. The marker has no \<open>id\<close>, and the loop of
  \<open>main\<close> that builds the snapshot passes it over: the target gets no record.
\<close>

theorem pool_isolates_errors:
  fixes items :: "'a list" and mapper :: "'a \<Rightarrow> nat \<Rightarrow> js_error + jsval"
  assumes "1 \<le> limit" and "j < length items" and "mapper (items ! j) j = Inl err"
    and "mapWithConcurrency items limit mapper schedule = Some rs"
  shows "length rs = length items
     \<and> rs ! j = ErrorMarker err
     \<and> (\<forall>idx < length items. idx \<noteq> j \<longrightarrow> rs ! idx = settle (mapper (items ! idx) idx))
     \<and> (\<forall>nextStatus. status_entry nextStatus (rs ! j) = nextStatus)
     \<and> (\<forall>schedule' s. run_schedule items mapper schedule' (pool_start items limit) = Some s \<longrightarrow>
           (\<exists>more rs'. mapWithConcurrency items limit mapper (schedule' @ more) = Some rs'))"
proof -
  have rs: "rs = map (\<lambda>idx. settle (mapper (items ! idx) idx)) [0..<length items]"
    by (rule mapWithConcurrency_results [OF assms(1) assms(4)])
  have j: "rs ! j = ErrorMarker err"
    using assms(2,3) by (simp add: rs settle_def)
  have fin: "\<exists>more rs'. mapWithConcurrency items limit mapper (schedule' @ more) = Some rs'"
    if run: "run_schedule items mapper schedule' (pool_start items limit) = Some s" for schedule' s
  proof -
    obtain more s' where "run_schedule items mapper more s = Some s'" "all_finished s'"
      using pool_can_finish [of items mapper s] by blast
    then have "mapWithConcurrency items limit mapper (schedule' @ more) = Some (results s')"
      using run by (simp add: mapWithConcurrency_def run_schedule_append)
    then show ?thesis by blast
  qed
  show ?thesis
    using j fin by (simp add: rs status_entry_skip)
qed

theorem pool_isolates_errors_witness:
  "mapWithConcurrency [JStr ''x'', JStr ''y'', JStr ''z''] 2
      (\<lambda>item idx. if idx = 1 then Inl TypeError else Inr item) [0, 1, 1, 1, 1, 1, 0, 0]
     = Some [Result (JStr ''x''), ErrorMarker TypeError, Result (JStr ''z'')]
   \<and> [Result (JStr ''x''), ErrorMarker TypeError, Result (JStr ''z'')] ! 1 = ErrorMarker TypeError
   \<and> (\<forall>nextStatus. status_entry nextStatus
          ([Result (JStr ''x''), ErrorMarker TypeError, Result (JStr ''z'')] ! 1) = nextStatus)"
proof -
  have l: "(1::nat) \<le> 2" by simp
  have j: "(1::nat) < length [JStr ''x'', JStr ''y'', JStr ''z'']" by simp
  have m: "(\<lambda>item idx. if idx = 1 then Inl TypeError else Inr item)
             ([JStr ''x'', JStr ''y'', JStr ''z''] ! 1) (1::nat) = (Inl TypeError :: js_error + jsval)"
    by simp
  have e: "mapWithConcurrency [JStr ''x'', JStr ''y'', JStr ''z''] 2
      (\<lambda>item idx. if idx = 1 then Inl TypeError else Inr item) [0, 1, 1, 1, 1, 1, 0, 0]
     = Some [Result (JStr ''x''), ErrorMarker TypeError, Result (JStr ''z'')]"
    by code_simp
  show ?thesis
    using pool_isolates_errors [OF l j m e] e by blast
qed

text \<open>
  The claim as stated has the failed target treated as offline. In the tick below the
  marker of target \<open>a\<close> yields no record at all, while the disabled target \<open>b\<close> next to it
  yields a record with \<open>online: false\<close>.
\<close>

theorem pool_error_not_offline_counterexample:
  "mapWithConcurrency failing_config_targets CONCURRENCY
      (main_mapper failing_env [] (rt_now failing_env)) [0, 1, 1, 1, 0, 0]
     = Some [ErrorMarker RangeError,
             Result (JObj [(''id'', JStr ''b''), (''online'', JBool False),
                           (''lastCheckAt'', JStr ''2026-01-01T00:00:00.000Z'')])]
   \<and> buildNextStatus
        [ErrorMarker RangeError,
         Result (JObj [(''id'', JStr ''b''), (''online'', JBool False),
                       (''lastCheckAt'', JStr ''2026-01-01T00:00:00.000Z'')])]
     = [(''b'', JObj [(''online'', JBool False),
                      (''lastCheckAt'', JStr ''2026-01-01T00:00:00.000Z'')])]
   \<and> map_of (buildNextStatus
        [ErrorMarker RangeError,
         Result (JObj [(''id'', JStr ''b''), (''online'', JBool False),
                       (''lastCheckAt'', JStr ''2026-01-01T00:00:00.000Z'')])]) ''a'' = None"
  by code_simp

section \<open>Properties of the entry point\<close>

text \<open>
  C6. Started without \<open>--watch\<close>, the script calls \<open>main()\<close> twice while it loads, once
  through \<open>runOnce\<close> and once in its last statement, so two ticks are in flight together.
\<close>

theorem script_starts_two_ticks:
  "script [] = [ViaRunOnce, AtEndOfScript] \<and> length (script []) = 2"
  by (simp add: script_def runOnce_def)

end
